theory Spec2Isabelle
  imports Complex_Main "HOL-Library.AList" "HOL-Library.Multiset"
begin

section \<open>The HAN trainer flow (openhgnn/trainerflow/han\_trainer.py)\<close>

text \<open>
  The class \<open>HAN\<close> orchestrates training, evaluation, early stopping and prediction for a
  node-classification model.  The model, the optimizer, the loss function, the data
  loaders and the task's evaluators are external collaborators: they are parameters of
  the embedding (the record \<open>ops\<close>), and every theorem holds for all of them.

  A loss value is a Python float.  It is modelled as the real number it stands for
  (infinities and NaN are left out), so that floats are compared as the source compares
  them; the addition and the division of floats, which round, are the parameters
  \<open>float_add\<close> and \<open>float_div\<close> of the embedding.  Node identifiers and class labels are \<open>nat\<close>.  A tensor with one
  row per node is a list of rows; \<open>torch.cat(..., dim=0)\<close> is \<open>concat\<close>.  A Python
  \<open>dict\<close> is an association list maintained with \<open>AList.update\<close> (a key that is
  assigned again keeps its position and takes the new value).
\<close>

subsection \<open>Errors\<close>

datatype error =
    ZeroDivisionError
  | UnboundLocalError
  | AttributeError
  | IndexError
  | KeyError
  | RuntimeError
  | FileNotFoundError

subsection \<open>Batches, loaders and the external collaborators\<close>

text \<open>
  A loader yields triples \<open>(input_nodes_dict, seeds, block_dict)\<close>.  \<open>seeds\<close> holds the
  seed nodes of the category type; \<open>block\<close> stands for the sampled sub-structure (the
  input nodes and the blocks of every meta-path).
\<close>

record 'b batch =
  seeds :: "nat list"
  block :: 'b

datatype 'b input = Whole | Sampled "'b batch"

text \<open>
  Every loader is built with \<open>shuffle=True\<close>: one traversal draws from the random
  generator and leaves it in a new state.
\<close>

type_synonym ('r, 'b) loader = "'r \<Rightarrow> 'b batch list \<times> 'r"

record args =
  mini_batch_flag :: bool
  test_flag :: bool
  prediction_flag :: bool
  dataset :: string
  patience :: int
  out_dim :: int
  category :: string
  out_node_type :: "string list"

text \<open>
  \<open>forward_eval\<close> is the model called in evaluation mode (no dropout, no gradient):
  a function of the parameters and the input.  \<open>forward_train\<close> is the model called in
  training mode, which may consume randomness.  \<open>optim_step\<close> is
  \<open>optimizer.zero_grad(); loss.backward(); optimizer.step()\<close> for the loss of the
  forward pass that started from the given parameters and generator state.
  \<open>float_add\<close> and \<open>float_div\<close> are Python's \<open>+\<close> and \<open>/\<close> on floats.
\<close>

record ('m, 'o, 'r, 'b, 'lg, 'sc) ops =
  forward_eval :: "'m \<Rightarrow> 'b input \<Rightarrow> 'lg list"
  forward_train :: "'m \<Rightarrow> 'r \<Rightarrow> 'b input \<Rightarrow> 'lg list \<times> 'r"
  loss_fn :: "'lg list \<Rightarrow> nat list \<Rightarrow> real"
  optim_step :: "'m \<Rightarrow> 'o \<Rightarrow> 'r \<Rightarrow> 'b input \<Rightarrow> 'm \<times> 'o"
  argmax :: "'lg \<Rightarrow> nat"
  evaluator_f1 :: "nat list \<Rightarrow> nat list \<Rightarrow> 'sc"
  task_evaluate :: "'lg list \<Rightarrow> string \<Rightarrow> 'sc"
  base_preprocess :: "'m \<times> 'o \<Rightarrow> 'm \<times> 'o"
  build_model_from_args :: "args \<Rightarrow> 'm"
  candidate_optimizer :: "args \<Rightarrow> 'm \<Rightarrow> 'o"
  data_loader :: "nat list \<Rightarrow> ('r, 'b) loader"
  float_add :: "real \<Rightarrow> real \<Rightarrow> real"
  float_div :: "real \<Rightarrow> real \<Rightarrow> real"

subsection \<open>Observable events\<close>

text \<open>
  The calls the flow makes to its logger, its progress bar, the optimizer, the stopper
  and the dataset, in the order they happen.  \<open>OptimStep l\<close> is one parameter update
  (\<open>zero_grad\<close>, \<open>loss.backward()\<close>, \<open>optimizer.step()\<close>) for a loss of value \<open>l\<close>;
  \<open>LossStep e v m\<close> is the call \<open>stopper.loss_step(v, m)\<close> made in epoch \<open>e\<close>.
\<close>

datatype ('m, 'lg) event =
    Info string
  | EpochTick nat
  | OptimStep real
  | TrainInfo nat real real
  | LossStep nat real 'm
  | EarlyStopInfo nat
  | LoadModel
  | TestInfo
  | SaveResults "'lg list"

subsection \<open>The state of the flow\<close>

record ('m, 'o, 'r, 'b, 'lg) han =
  hargs :: args
  checkpoint :: "string option"
  max_epoch :: int
  evaluate_interval :: int
  num_classes :: int
  num_nodes :: nat
  model :: 'm
  optimizer :: 'o
  rng :: 'r
  training :: bool
  train_idx :: "nat list"
  valid_idx :: "nat list"
  test_idx :: "nat list"
  pred_idx :: "nat list option"
  labels :: "nat list"
  train_loader :: "('r, 'b) loader option"
  val_loader :: "('r, 'b) loader option"
  test_loader :: "('r, 'b) loader option"
  pred_loader :: "('r, 'b) loader option"
  trace :: "('m, 'lg) event list"

definition emit ::
  "('m, 'lg) event \<Rightarrow> ('m, 'o, 'r, 'b, 'lg) han \<Rightarrow> ('m, 'o, 'r, 'b, 'lg) han" where
  "emit ev h = h\<lparr>trace := trace h @ [ev]\<rparr>"

text \<open>\<open>t[idx]\<close> for an index tensor \<open>idx\<close>: every index must be in range.\<close>

definition index_select :: "'a list \<Rightarrow> nat list \<Rightarrow> error + 'a list" where
  "index_select xs idx =
     (if list_all (\<lambda>i. i < length xs) idx then Inr (map (\<lambda>i. xs ! i) idx)
      else Inl IndexError)"

text \<open>\<open>torch.cat\<close> of a Python list of tensors: the empty list is rejected.\<close>

definition torch_cat :: "'a list list \<Rightarrow> error + 'a list" where
  "torch_cat ts = (if ts = [] then Inl RuntimeError else Inr (concat ts))"

subsection \<open>The early stopper\<close>

text \<open>
  Modelled from the spec: the class \<open>EarlyStopping\<close> of \<open>openhgnn/utils\<close> is not part of
  the sources at hand.  Section 4.7: the stopper starts WATCHING with
  \<open>best_loss = +infinity\<close> (here \<open>None\<close>) and \<open>counter = 0\<close>; an observation \<open>v < best_loss\<close>
  sets \<open>best_loss = v\<close>, \<open>counter = 0\<close> and persists the model parameters; any other
  observation increments the counter and moves to STOPPED once \<open>counter >= patience\<close>.
  STOPPED is terminal.  \<open>loss_step\<close> reports whether the stopper is STOPPED.

  Line 76 hands the constructor \<open>self._checkpoint\<close>, the path of the file to persist to,
  which may be \<open>None\<close>.  Line 101 calls \<open>load_model(self.model)\<close> as a statement: what
  the call returns is dropped, and \<open>self.model\<close> is never assigned, so the parameters of
  the model after line 101 are those that the call leaves in the object it is given.
  \<open>load_model\<close> therefore yields two things, what it returns and the parameters it
  leaves in its argument.  With a path the persisted parameters are a file, which is
  loaded into the model given (reading a file that was never written raises) and
  nothing is returned.  With no path the stopper keeps the persisted model itself and
  returns it, and the model given stays as it is.
\<close>

record 'm stopper =
  st_patience :: int
  save_path :: "string option"
  best_loss :: "real option"
  counter :: int
  saved_model_blob :: "'m option"
  stopped :: bool

definition EarlyStopping :: "int \<Rightarrow> string option \<Rightarrow> 'm stopper" where
  "EarlyStopping p path =
     \<lparr>st_patience = p, save_path = path, best_loss = None, counter = 0,
      saved_model_blob = None, stopped = False\<rparr>"

definition improves :: "real \<Rightarrow> real option \<Rightarrow> bool" where
  "improves v best = (case best of None \<Rightarrow> True | Some b \<Rightarrow> v < b)"

definition loss_step :: "real \<Rightarrow> 'm \<Rightarrow> 'm stopper \<Rightarrow> bool \<times> 'm stopper" where
  "loss_step v m s =
     (if improves v (best_loss s)
      then (stopped s, s\<lparr>best_loss := Some v, counter := 0, saved_model_blob := Some m\<rparr>)
      else
        (let c = counter s + 1;
             st = (stopped s \<or> c \<ge> st_patience s)
         in (st, s\<lparr>counter := c, stopped := st\<rparr>)))"

definition load_model :: "'m stopper \<Rightarrow> 'm \<Rightarrow> error + ('m option \<times> 'm)" where
  "load_model s m =
     (case save_path s of
        None \<Rightarrow> Inr (saved_model_blob s, m)
      | Some path \<Rightarrow>
          (case saved_model_blob s of
             None \<Rightarrow> Inl FileNotFoundError
           | Some c \<Rightarrow> Inr (None, c)))"

subsection \<open>Training steps\<close>

text \<open>\<open>HAN._full_train_step\<close>: one forward pass over the whole graph and one update.\<close>

definition full_train_step ::
  "('m, 'o, 'r, 'b, 'lg, 'sc) ops \<Rightarrow> ('m, 'o, 'r, 'b, 'lg) han \<Rightarrow>
   error + (real \<times> ('m, 'o, 'r, 'b, 'lg) han)" where
  "full_train_step ops h0 =
     (let h = h0\<lparr>training := True\<rparr>;
          (logits, r) = forward_train ops (model h) (rng h) Whole
      in case index_select logits (train_idx h) of
           Inl e \<Rightarrow> Inl e
         | Inr lg \<Rightarrow>
             (case index_select (labels h) (train_idx h) of
                Inl e \<Rightarrow> Inl e
              | Inr lbl \<Rightarrow>
                  (let loss = loss_fn ops lg lbl;
                       (m, opt) = optim_step ops (model h) (optimizer h) (rng h) Whole
                   in Inr (loss, emit (OptimStep loss) (h\<lparr>model := m, optimizer := opt, rng := r\<rparr>)))))"

text \<open>
  The batch loop of \<open>HAN._mini_train_step\<close> over \<open>enumerate(loader)\<close>.  The accumulator
  is \<open>loss_all\<close> and the loop variable \<open>i\<close>, which is unbound (\<open>None\<close>) until the first
  batch.
\<close>

fun mini_train_batches ::
  "('m, 'o, 'r, 'b, 'lg, 'sc) ops \<Rightarrow> ('m, 'o, 'r, 'b, 'lg) han \<Rightarrow> real \<Rightarrow> nat option \<Rightarrow>
   (nat \<times> 'b batch) list \<Rightarrow> error + (('m, 'o, 'r, 'b, 'lg) han \<times> real \<times> nat option)" where
  "mini_train_batches ops h loss_all i [] = Inr (h, loss_all, i)"
| "mini_train_batches ops h loss_all i ((k, b) # rest) =
     (case index_select (labels h) (seeds b) of
        Inl e \<Rightarrow> Inl e
      | Inr lbl \<Rightarrow>
          (let (logits, r) = forward_train ops (model h) (rng h) (Sampled b);
               loss = loss_fn ops logits lbl;
               (m, opt) = optim_step ops (model h) (optimizer h) (rng h) (Sampled b)
           in mini_train_batches ops
                (emit (OptimStep loss) (h\<lparr>model := m, optimizer := opt, rng := r\<rparr>))
                (float_add ops loss_all loss) (Some k) rest))"

text \<open>\<open>HAN._mini_train_step\<close>: returns \<open>loss_all / (i + 1)\<close>.\<close>

definition mini_train_step ::
  "('m, 'o, 'r, 'b, 'lg, 'sc) ops \<Rightarrow> ('m, 'o, 'r, 'b, 'lg) han \<Rightarrow>
   error + (real \<times> ('m, 'o, 'r, 'b, 'lg) han)" where
  "mini_train_step ops h0 =
     (let h = h0\<lparr>training := True\<rparr>
      in case train_loader h of
           None \<Rightarrow> Inl AttributeError
         | Some ld \<Rightarrow>
             (let (bs, r) = ld (rng h)
              in case mini_train_batches ops (h\<lparr>rng := r\<rparr>) 0 None (enumerate 0 bs) of
                   Inl e \<Rightarrow> Inl e
                 | Inr (h', loss_all, i) \<Rightarrow>
                     (case i of
                        None \<Rightarrow> Inl UnboundLocalError
                      | Some i \<Rightarrow> Inr (float_div ops loss_all (real (i + 1)), h'))))"

subsection \<open>Evaluation steps\<close>

text \<open>
  \<open>HAN._full_test_step\<close> (always called with \<open>logits=None\<close>).  The loop over \<open>modes\<close>
  fills \<open>masks\<close>; a mode other than train, valid and test is skipped.
\<close>

fun build_masks ::
  "('m, 'o, 'r, 'b, 'lg) han \<Rightarrow> (string \<times> nat list) list \<Rightarrow> string list \<Rightarrow>
   (string \<times> nat list) list" where
  "build_masks h masks [] = masks"
| "build_masks h masks (mode # modes) =
     build_masks h
       (if mode = ''train'' then AList.update mode (train_idx h) masks
        else if mode = ''valid'' then AList.update mode (valid_idx h) masks
        else if mode = ''test'' then AList.update mode (test_idx h) masks
        else masks)
       modes"

fun full_losses ::
  "('m, 'o, 'r, 'b, 'lg, 'sc) ops \<Rightarrow> 'lg list \<Rightarrow> nat list \<Rightarrow> (string \<times> nat list) list \<Rightarrow>
   error + (string \<times> real) list" where
  "full_losses ops logits lbls [] = Inr []"
| "full_losses ops logits lbls ((key, msk) # rest) =
     (case index_select logits msk of
        Inl e \<Rightarrow> Inl e
      | Inr lg \<Rightarrow>
          (case index_select lbls msk of
             Inl e \<Rightarrow> Inl e
           | Inr lbl \<Rightarrow>
               (case full_losses ops logits lbls rest of
                  Inl e \<Rightarrow> Inl e
                | Inr d \<Rightarrow> Inr ((key, loss_fn ops lg lbl) # d))))"

definition full_test_step ::
  "('m, 'o, 'r, 'b, 'lg, 'sc) ops \<Rightarrow> ('m, 'o, 'r, 'b, 'lg) han \<Rightarrow> string list \<Rightarrow>
   error + (((string \<times> 'sc) list \<times> (string \<times> real) list) \<times> ('m, 'o, 'r, 'b, 'lg) han)" where
  "full_test_step ops h0 modes =
     (let h = h0\<lparr>training := False\<rparr>;
          logits = forward_eval ops (model h) Whole;
          masks = build_masks h [] modes;
          metric_dict = map (\<lambda>(key, msk). (key, task_evaluate ops logits key)) masks
      in case full_losses ops logits (labels h) masks of
           Inl e \<Rightarrow> Inl e
         | Inr loss_dict \<Rightarrow> Inr ((metric_dict, loss_dict), h))"

text \<open>
  The batch loop of \<open>HAN._mini_test_step\<close>.  The function's locals \<open>loss_all\<close>, \<open>i\<close> and
  \<open>loss\<close> live across the modes; \<open>y_trues\<close> and \<open>y_predicts\<close> are reset for each mode.
\<close>

fun mini_test_batches ::
  "('m, 'o, 'r, 'b, 'lg, 'sc) ops \<Rightarrow> 'm \<Rightarrow> nat list \<Rightarrow>
   real \<times> nat option \<times> real option \<times> nat list list \<times> 'lg list list \<Rightarrow>
   (nat \<times> 'b batch) list \<Rightarrow>
   error + (real \<times> nat option \<times> real option \<times> nat list list \<times> 'lg list list)" where
  "mini_test_batches ops m lbls acc [] = Inr acc"
| "mini_test_batches ops m lbls (loss_all, i, loss, y_trues, y_predicts) ((k, b) # rest) =
     (let logits = forward_eval ops m (Sampled b)
      in case index_select lbls (seeds b) of
           Inl e \<Rightarrow> Inl e
         | Inr lbl \<Rightarrow>
             (let l = loss_fn ops logits lbl
              in mini_test_batches ops m lbls
                   (float_add ops loss_all l, Some k, Some l, y_trues @ [lbl],
                    y_predicts @ [logits])
                   rest))"

text \<open>
  The \<open>if/elif\<close> chain that picks the loader.  For any other mode \<open>loader_tqdm\<close> keeps
  the loader of the previous mode, and is unbound when there was none.
\<close>

definition select_loader ::
  "('m, 'o, 'r, 'b, 'lg) han \<Rightarrow> ('r, 'b) loader option \<Rightarrow> string \<Rightarrow>
   error + ('r, 'b) loader" where
  "select_loader h cur mode =
     (if mode = ''train'' then
        (case train_loader h of None \<Rightarrow> Inl AttributeError | Some l \<Rightarrow> Inr l)
      else if mode = ''valid'' then
        (case val_loader h of None \<Rightarrow> Inl AttributeError | Some l \<Rightarrow> Inr l)
      else if mode = ''test'' then
        (case test_loader h of None \<Rightarrow> Inl AttributeError | Some l \<Rightarrow> Inr l)
      else (case cur of None \<Rightarrow> Inl UnboundLocalError | Some l \<Rightarrow> Inr l))"

fun mini_test_modes ::
  "('m, 'o, 'r, 'b, 'lg, 'sc) ops \<Rightarrow> ('m, 'o, 'r, 'b, 'lg) han \<Rightarrow> ('r, 'b) loader option \<Rightarrow>
   real \<Rightarrow> nat option \<Rightarrow> real option \<Rightarrow> (string \<times> 'sc) list \<Rightarrow> (string \<times> real) list \<Rightarrow>
   string list \<Rightarrow>
   error + (((string \<times> 'sc) list \<times> (string \<times> real) list) \<times> ('m, 'o, 'r, 'b, 'lg) han)" where
  "mini_test_modes ops h cur loss_all i loss metric_dict loss_dict [] =
     Inr ((metric_dict, loss_dict), h)"
| "mini_test_modes ops h cur loss_all i loss metric_dict loss_dict (mode # modes) =
     (case select_loader h cur mode of
        Inl e \<Rightarrow> Inl e
      | Inr ldr \<Rightarrow>
          (let (bs, r) = ldr (rng h)
           in case mini_test_batches ops (model h) (labels h) (loss_all, i, loss, [], [])
                     (enumerate 0 bs) of
                Inl e \<Rightarrow> Inl e
              | Inr (loss_all1, i1, loss1, y_trues, y_predicts) \<Rightarrow>
                  (case i1 of
                     None \<Rightarrow> Inl UnboundLocalError
                   | Some n \<Rightarrow>
                       (case torch_cat y_trues of
                          Inl e \<Rightarrow> Inl e
                        | Inr yt \<Rightarrow>
                            (case torch_cat y_predicts of
                               Inl e \<Rightarrow> Inl e
                             | Inr yp \<Rightarrow>
                                 (case loss1 of
                                    None \<Rightarrow> Inl UnboundLocalError
                                  | Some l \<Rightarrow>
                                      mini_test_modes ops (h\<lparr>rng := r\<rparr>) (Some ldr)
                                        (float_div ops loss_all1 (real (n + 1))) i1 loss1
                                        (AList.update mode
                                           (evaluator_f1 ops yt (map (argmax ops) yp))
                                           metric_dict)
                                        (AList.update mode l loss_dict)
                                        modes))))))"

definition mini_test_step ::
  "('m, 'o, 'r, 'b, 'lg, 'sc) ops \<Rightarrow> ('m, 'o, 'r, 'b, 'lg) han \<Rightarrow> string list \<Rightarrow>
   error + (((string \<times> 'sc) list \<times> (string \<times> real) list) \<times> ('m, 'o, 'r, 'b, 'lg) han)" where
  "mini_test_step ops h0 modes =
     mini_test_modes ops (h0\<lparr>training := False\<rparr>) None 0 None None [] [] modes"

text \<open>
  The dispatch \<open>if self.args.mini_batch_flag and hasattr(self, 'val_loader')\<close> that
  \<open>train\<close> repeats before every evaluation.
\<close>

definition use_mini :: "('m, 'o, 'r, 'b, 'lg) han \<Rightarrow> bool" where
  "use_mini h = (mini_batch_flag (hargs h) \<and> val_loader h \<noteq> None)"

definition test_step ::
  "('m, 'o, 'r, 'b, 'lg, 'sc) ops \<Rightarrow> ('m, 'o, 'r, 'b, 'lg) han \<Rightarrow> string list \<Rightarrow>
   error + (((string \<times> 'sc) list \<times> (string \<times> real) list) \<times> ('m, 'o, 'r, 'b, 'lg) han)" where
  "test_step ops h modes =
     (if use_mini h then mini_test_step ops h modes else full_test_step ops h modes)"

subsection \<open>Prediction steps\<close>

definition full_prediction_step ::
  "('m, 'o, 'r, 'b, 'lg, 'sc) ops \<Rightarrow> ('m, 'o, 'r, 'b, 'lg) han \<Rightarrow>
   'lg list \<times> ('m, 'o, 'r, 'b, 'lg) han" where
  "full_prediction_step ops h0 =
     (let h = h0\<lparr>training := False\<rparr> in (forward_eval ops (model h) Whole, h))"

fun mini_prediction_batches ::
  "('m, 'o, 'r, 'b, 'lg, 'sc) ops \<Rightarrow> 'm \<Rightarrow> nat list list \<times> 'lg list list \<Rightarrow> 'b batch list \<Rightarrow>
   nat list list \<times> 'lg list list" where
  "mini_prediction_batches ops m acc [] = acc"
| "mini_prediction_batches ops m (indices, y_predicts) (b # rest) =
     mini_prediction_batches ops m
       (indices @ [seeds b], y_predicts @ [forward_eval ops m (Sampled b)]) rest"

definition mini_prediction_step ::
  "('m, 'o, 'r, 'b, 'lg, 'sc) ops \<Rightarrow> ('m, 'o, 'r, 'b, 'lg) han \<Rightarrow>
   error + ((nat list \<times> 'lg list) \<times> ('m, 'o, 'r, 'b, 'lg) han)" where
  "mini_prediction_step ops h0 =
     (let h = h0\<lparr>training := False\<rparr>
      in case pred_loader h of
           None \<Rightarrow> Inl AttributeError
         | Some ld \<Rightarrow>
             (let (bs, r) = ld (rng h);
                  (indices, y_predicts) = mini_prediction_batches ops (model h) ([], []) bs
              in case torch_cat indices of
                   Inl e \<Rightarrow> Inl e
                 | Inr ind \<Rightarrow>
                     (case torch_cat y_predicts of
                        Inl e \<Rightarrow> Inl e
                      | Inr yp \<Rightarrow> Inr ((ind, yp), h\<lparr>rng := r\<rparr>))))"

subsection \<open>The training loop\<close>

datatype ('lg, 'sc) result =
    Predictions "nat list" "'lg list"
  | Summary "(string \<times> 'sc) list" nat
  | NoResult

text \<open>
  The body of \<open>for epoch in epoch_iter\<close> (lines 79 to 99).  The boolean of the result
  says whether the body left the loop with \<open>break\<close>.
\<close>

definition epoch_body ::
  "('m, 'o, 'r, 'b, 'lg, 'sc) ops \<Rightarrow> ('m, 'o, 'r, 'b, 'lg) han \<Rightarrow> 'm stopper \<Rightarrow> nat \<Rightarrow>
   error + (('m, 'o, 'r, 'b, 'lg) han \<times> 'm stopper \<times> bool)" where
  "epoch_body ops h stp epoch =
     (case (if mini_batch_flag (hargs h) then mini_train_step ops h
            else full_train_step ops h) of
        Inl e \<Rightarrow> Inl e
      | Inr (train_loss, h1) \<Rightarrow>
          if evaluate_interval h1 = 0 then Inl ZeroDivisionError
          else if int epoch mod evaluate_interval h1 = 0 then
            (let modes = [''train'', ''valid''] @
                         (if test_flag (hargs h1) then [''test''] else [])
             in case test_step ops h1 modes of
                  Inl e \<Rightarrow> Inl e
                | Inr ((metric_dict, losses), h2) \<Rightarrow>
                    (case map_of losses ''valid'' of
                       None \<Rightarrow> Inl KeyError
                     | Some val_loss \<Rightarrow>
                         (let h3 = emit (TrainInfo epoch train_loss val_loss) h2;
                              (early_stop, stp') = loss_step val_loss (model h3) stp;
                              h4 = emit (LossStep epoch val_loss (model h3)) h3
                          in if early_stop
                             then Inr (emit (EarlyStopInfo epoch) h4, stp', True)
                             else Inr (h4, stp', False))))
          else Inr (h1, stp, False))"

text \<open>
  The loop itself.  \<open>last_epoch\<close> is the Python variable \<open>epoch\<close> as it stands after the
  loop: unbound when the range was empty.
\<close>

fun epoch_loop ::
  "('m, 'o, 'r, 'b, 'lg, 'sc) ops \<Rightarrow> ('m, 'o, 'r, 'b, 'lg) han \<Rightarrow> 'm stopper \<Rightarrow> nat option \<Rightarrow>
   nat list \<Rightarrow> error + (('m, 'o, 'r, 'b, 'lg) han \<times> 'm stopper \<times> nat option)" where
  "epoch_loop ops h stp last_epoch [] = Inr (h, stp, last_epoch)"
| "epoch_loop ops h stp last_epoch (epoch # rest) =
     (case epoch_body ops (emit (EpochTick epoch) h) stp epoch of
        Inl e \<Rightarrow> Inl e
      | Inr (h', stp', brk) \<Rightarrow>
          if brk then Inr (h', stp', Some epoch)
          else epoch_loop ops h' stp' (Some epoch) rest)"

text \<open>Lines 102 to 129 of \<open>train\<close>: what runs after \<open>stopper.load_model\<close>.\<close>

definition finish ::
  "('m, 'o, 'r, 'b, 'lg, 'sc) ops \<Rightarrow> ('m, 'o, 'r, 'b, 'lg) han \<Rightarrow> nat option \<Rightarrow>
   error + (('lg, 'sc) result \<times> ('m, 'o, 'r, 'b, 'lg) han)" where
  "finish ops h last_epoch =
     (if prediction_flag (hargs h) then
        (if use_mini h then
           (case mini_prediction_step ops h of
              Inl e \<Rightarrow> Inl e
            | Inr ((indices, y_predicts), h1) \<Rightarrow> Inr (Predictions indices y_predicts, h1))
         else
           (let (y_predicts, h1) = full_prediction_step ops h
            in Inr (Predictions [0..<num_nodes h1] y_predicts, h1)))
      else if test_flag (hargs h) then
        (if take 4 (dataset (hargs h)) = ''HGBn'' then
           (case test_step ops h [''valid''] of
              Inl e \<Rightarrow> Inl e
            | Inr ((metric_dict, val_loss), h1) \<Rightarrow>
                (let h2 = (emit TestInfo h1)\<lparr>training := False\<rparr>;
                     logits = forward_eval ops (model h2) Whole;
                     h3 = emit (SaveResults logits) h2
                 in case last_epoch of
                      None \<Rightarrow> Inl UnboundLocalError
                    | Some epoch \<Rightarrow> Inr (Summary metric_dict epoch, h3)))
         else
           (case test_step ops h [''valid'', ''test''] of
              Inl e \<Rightarrow> Inl e
            | Inr ((metric_dict, _), h1) \<Rightarrow>
                (case last_epoch of
                   None \<Rightarrow> Inl UnboundLocalError
                 | Some epoch \<Rightarrow> Inr (Summary metric_dict epoch, emit TestInfo h1))))
      else Inr (NoResult, h))"

text \<open>
  \<open>HAN.train\<close>.  After the loop, \<open>stopper.load_model(self.model)\<close>: the value it returns
  is dropped, and the final phase runs on the parameters the call left in the model.
\<close>

definition train ::
  "('m, 'o, 'r, 'b, 'lg, 'sc) ops \<Rightarrow> ('m, 'o, 'r, 'b, 'lg) han \<Rightarrow>
   error + (('lg, 'sc) result \<times> ('m, 'o, 'r, 'b, 'lg) han)" where
  "train ops h0 =
     (let (m, opt) = base_preprocess ops (model h0, optimizer h0);
          h = h0\<lparr>model := m, optimizer := opt\<rparr>;
          stopper = EarlyStopping (patience (hargs h)) (checkpoint h)
      in case epoch_loop ops h stopper None [0..<nat (max_epoch h)] of
           Inl e \<Rightarrow> Inl e
         | Inr (h1, stp, last_epoch) \<Rightarrow>
             (case load_model stp (model h1) of
                Inl e \<Rightarrow> Inl e
              | Inr (returned, left) \<Rightarrow>
                  finish ops (emit LoadModel (h1\<lparr>model := left\<rparr>)) last_epoch))"

subsection \<open>Construction\<close>

text \<open>
  What \<open>BaseFlow.__init__\<close> and the task hand to \<open>HAN.__init__\<close>: the dataset's
  category, number of classes, split and labels, whether the dataset has an attribute
  \<open>out_dim\<close>, its prediction indices when it has any, the loop bounds and the path
  \<open>_checkpoint\<close>.
\<close>

record 'r flow_setup =
  ds_category :: string
  ds_num_classes :: int
  ds_has_out_dim :: bool
  ds_num_nodes :: nat
  ds_split :: "nat list \<times> nat list \<times> nat list"
  ds_pred_idx :: "nat list option"
  ds_labels :: "nat list"
  su_max_epoch :: int
  su_evaluate_interval :: int
  su_checkpoint :: "string option"
  su_rng :: 'r

definition modify_out_dim_msg :: string where
  "modify_out_dim_msg = ''[NC Specific] Modify the out_dim with num_classes''"

text \<open>Lines 34 to 37: the check of \<open>out_dim\<close> against \<open>num_classes\<close>.\<close>

definition fix_out_dim :: "'r flow_setup \<Rightarrow> args \<Rightarrow> string list \<times> args" where
  "fix_out_dim su a =
     (if \<not> ds_has_out_dim su \<or> out_dim a \<noteq> ds_num_classes su
      then ([modify_out_dim_msg], a\<lparr>out_dim := ds_num_classes su\<rparr>)
      else ([], a))"

text \<open>\<open>HAN.__init__\<close>.\<close>

definition init ::
  "('m, 'o, 'r, 'b, 'lg, 'sc) ops \<Rightarrow> args \<Rightarrow> 'r flow_setup \<Rightarrow> error + ('m, 'o, 'r, 'b, 'lg) han" where
  "init ops args0 su =
     (let a1 = args0\<lparr>category := ds_category su\<rparr>;
          (msgs, a2) = fix_out_dim su a1;
          a3 = a2\<lparr>out_node_type := [category a2]\<rparr>;
          m = build_model_from_args ops a3;
          opt = candidate_optimizer ops a3 m;
          (tr, va, te) = ds_split su
      in case (if prediction_flag a3
               then (case ds_pred_idx su of None \<Rightarrow> Inl AttributeError | Some p \<Rightarrow> Inr (Some p))
               else Inr None) of
           Inl e \<Rightarrow> Inl e
         | Inr pred \<Rightarrow>
             Inr \<lparr>hargs = a3, checkpoint = su_checkpoint su, max_epoch = su_max_epoch su,
                  evaluate_interval = su_evaluate_interval su,
                  num_classes = ds_num_classes su, num_nodes = ds_num_nodes su,
                  model = m, optimizer = opt, rng = su_rng su, training = True,
                  train_idx = tr, valid_idx = va, test_idx = te, pred_idx = pred,
                  labels = ds_labels su,
                  train_loader =
                    (if mini_batch_flag a3 then Some (data_loader ops tr) else None),
                  val_loader =
                    (if mini_batch_flag a3 then Some (data_loader ops va) else None),
                  test_loader =
                    (if mini_batch_flag a3 \<and> test_flag a3 then Some (data_loader ops te)
                     else None),
                  pred_loader =
                    (if mini_batch_flag a3 \<and> prediction_flag a3
                     then map_option (data_loader ops) pred else None),
                  trace = map Info msgs\<rparr>)"

section \<open>Notions used by the properties\<close>

subsection \<open>Batches and passes\<close>

text \<open>All seed nodes of a batch have a label.\<close>

definition in_range :: "nat list \<Rightarrow> 'b batch \<Rightarrow> bool" where
  "in_range lbls b = list_all (\<lambda>i. i < length lbls) (seeds b)"

definition batch_labels :: "nat list \<Rightarrow> 'b batch \<Rightarrow> nat list" where
  "batch_labels lbls b = map (\<lambda>i. lbls ! i) (seeds b)"

text \<open>
  The losses \<open>l1, ..., ln\<close> of the batches of a training pass that starts with the
  parameters \<open>m\<close>, the optimizer state \<open>opt\<close> and the generator state \<open>r\<close>: the loss of
  a batch is the loss function applied to the output of the model on the batch, in
  training mode and with the parameters that the updates for the batches before it have
  left, and to the labels of the seed nodes of the batch.
\<close>

fun train_losses ::
  "('m, 'o, 'r, 'b, 'lg, 'sc) ops \<Rightarrow> 'm \<Rightarrow> 'o \<Rightarrow> 'r \<Rightarrow> nat list \<Rightarrow> 'b batch list \<Rightarrow>
   real list" where
  "train_losses ops m opt r lbls [] = []"
| "train_losses ops m opt r lbls (b # bs) =
     (let (logits, r') = forward_train ops m r (Sampled b);
          (m', opt') = optim_step ops m opt r (Sampled b)
      in loss_fn ops logits (batch_labels lbls b) # train_losses ops m' opt' r' lbls bs)"

text \<open>The loss of one batch in evaluation mode.\<close>

definition batch_loss ::
  "('m, 'o, 'r, 'b, 'lg, 'sc) ops \<Rightarrow> 'm \<Rightarrow> nat list \<Rightarrow> 'b batch \<Rightarrow> real" where
  "batch_loss ops m lbls b =
     loss_fn ops (forward_eval ops m (Sampled b)) (batch_labels lbls b)"

text \<open>
  The batches that the traversals of a mini-batch evaluation yield, one entry per mode,
  in the order of the modes: the loader of each mode is traversed from the generator
  state that the previous traversal left.  \<open>None\<close> when a mode has no loader, a loader
  yields no batch, or a seed node has no label.
\<close>

fun passes ::
  "('m, 'o, 'r, 'b, 'lg) han \<Rightarrow> ('r, 'b) loader option \<Rightarrow> 'r \<Rightarrow> string list \<Rightarrow>
   (string \<times> 'b batch list) list option" where
  "passes h cur r [] = Some []"
| "passes h cur r (mode # modes) =
     (case select_loader h cur mode of
        Inl e \<Rightarrow> None
      | Inr ldr \<Rightarrow>
          (let (bs, r') = ldr r
           in if bs = [] \<or> \<not> list_all (in_range (labels h)) bs then None
              else map_option (\<lambda>ps. (mode, bs) # ps) (passes h (Some ldr) r' modes)))"

text \<open>The score of one pass: the evaluator applied once to the concatenated batches.\<close>

definition pass_score ::
  "('m, 'o, 'r, 'b, 'lg, 'sc) ops \<Rightarrow> 'm \<Rightarrow> nat list \<Rightarrow> 'b batch list \<Rightarrow> 'sc" where
  "pass_score ops m lbls bs =
     evaluator_f1 ops (concat (map (batch_labels lbls) bs))
       (map (argmax ops) (concat (map (\<lambda>b. forward_eval ops m (Sampled b)) bs)))"

text \<open>Two calls of a step in succession; the results of both.\<close>

definition twice ::
  "('s \<Rightarrow> error + ('a \<times> 's)) \<Rightarrow> 's \<Rightarrow> error + ('a \<times> 'a)" where
  "twice step h =
     (case step h of
        Inl e \<Rightarrow> Inl e
      | Inr (res1, h1) \<Rightarrow>
          (case step h1 of Inl e \<Rightarrow> Inl e | Inr (res2, h2) \<Rightarrow> Inr (res1, res2)))"

text \<open>
  A Python \<open>dict\<close> after the assignments \<open>d[k] = v\<close> for the pairs of \<open>kvs\<close>, in
  their order.
\<close>

definition assign :: "('k \<times> 'v) list \<Rightarrow> ('k \<times> 'v) list \<Rightarrow> ('k \<times> 'v) list" where
  "assign d kvs = foldl (\<lambda>d (k, v). AList.update k v d) d kvs"

text \<open>
  The entries that a mini-batch evaluation assigns to \<open>metric_dict\<close> and to
  \<open>loss_dict\<close> for given passes: the score of each pass, and the loss of the last batch
  of each pass.
\<close>

definition scores_of ::
  "('m, 'o, 'r, 'b, 'lg, 'sc) ops \<Rightarrow> 'm \<Rightarrow> nat list \<Rightarrow> (string \<times> 'b batch list) list \<Rightarrow>
   (string \<times> 'sc) list" where
  "scores_of ops m lbls ps = map (\<lambda>(mode, bs). (mode, pass_score ops m lbls bs)) ps"

definition last_losses_of ::
  "('m, 'o, 'r, 'b, 'lg, 'sc) ops \<Rightarrow> 'm \<Rightarrow> nat list \<Rightarrow> (string \<times> 'b batch list) list \<Rightarrow>
   (string \<times> real) list" where
  "last_losses_of ops m lbls ps = map (\<lambda>(mode, bs). (mode, batch_loss ops m lbls (last bs))) ps"

text \<open>The index set and the loader of a split.\<close>

definition split_idx :: "('m, 'o, 'r, 'b, 'lg) han \<Rightarrow> string \<Rightarrow> nat list" where
  "split_idx h mode =
     (if mode = ''train'' then train_idx h
      else if mode = ''valid'' then valid_idx h else test_idx h)"

definition split_loader :: "('m, 'o, 'r, 'b, 'lg) han \<Rightarrow> string \<Rightarrow> ('r, 'b) loader option" where
  "split_loader h mode =
     (if mode = ''train'' then train_loader h
      else if mode = ''valid'' then val_loader h else test_loader h)"

subsection \<open>Reading a trace\<close>

text \<open>The epochs that were started, and the epochs in which the stopper was consulted.\<close>

fun ticks :: "('m, 'lg) event list \<Rightarrow> nat list" where
  "ticks [] = []"
| "ticks (EpochTick e # evs) = e # ticks evs"
| "ticks (ev # evs) = ticks evs"

fun consulted :: "('m, 'lg) event list \<Rightarrow> nat list" where
  "consulted [] = []"
| "consulted (LossStep e v m # evs) = e # consulted evs"
| "consulted (ev # evs) = consulted evs"

text \<open>The validation losses and the parameters that the stopper was shown.\<close>

fun observations :: "('m, 'lg) event list \<Rightarrow> (real \<times> 'm) list" where
  "observations [] = []"
| "observations (LossStep e v m # evs) = (v, m) # observations evs"
| "observations (ev # evs) = observations evs"

text \<open>
  The kinds of events: the updates of the parameters, the events of the final phase, and
  the events of the epoch loop.
\<close>

fun is_update ::"('m, 'lg) event \<Rightarrow> bool" where
  "is_update (OptimStep l) = True"
| "is_update ev = False"

fun is_final :: "('m, 'lg) event \<Rightarrow> bool" where
  "is_final TestInfo = True"
| "is_final (SaveResults lg) = True"
| "is_final ev = False"

fun is_loop_event :: "('m, 'lg) event \<Rightarrow> bool" where
  "is_loop_event (EpochTick e) = True"
| "is_loop_event (OptimStep l) = True"
| "is_loop_event (TrainInfo e t v) = True"
| "is_loop_event (LossStep e v m) = True"
| "is_loop_event (EarlyStopInfo e) = True"
| "is_loop_event ev = False"

text \<open>
  What may follow a consultation of the stopper: nothing, the start of the next epoch,
  the message of the early stop (after which the loop makes no further call), or the
  restoring of the checkpoint; never an update of a batch.
\<close>

fun boundary_after :: "nat \<Rightarrow> ('m, 'lg) event list \<Rightarrow> bool" where
  "boundary_after e [] = True"
| "boundary_after e (EpochTick e' # evs) = True"
| "boundary_after e (EarlyStopInfo e' # evs) = (e' = e \<and> list_all (\<lambda>ev. \<not> is_loop_event ev) evs)"
| "boundary_after e (LoadModel # evs) = True"
| "boundary_after e (ev # evs) = False"

fun consults_at_boundary :: "('m, 'lg) event list \<Rightarrow> bool" where
  "consults_at_boundary [] = True"
| "consults_at_boundary (LossStep e v m # evs) =
     (boundary_after e evs \<and> consults_at_boundary evs)"
| "consults_at_boundary (ev # evs) = consults_at_boundary evs"

text \<open>The stopper after a sequence of observations.\<close>

definition replay :: "'m stopper \<Rightarrow> (real \<times> 'm) list \<Rightarrow> 'm stopper" where
  "replay s obs = foldl (\<lambda>s (v, m). snd (loss_step v m s)) s obs"

text \<open>
  The state \<open>h\<close> after some steps of the flow: the steps change the parameters, the
  optimizer, the generator and the mode, and add events; everything else stays.
\<close>

definition evolve ::
  "('m, 'o, 'r, 'b, 'lg) han \<Rightarrow> 'm \<Rightarrow> 'o \<Rightarrow> 'r \<Rightarrow> bool \<Rightarrow> ('m, 'lg) event list \<Rightarrow>
   ('m, 'o, 'r, 'b, 'lg) han" where
  "evolve h m opt r t evs =
     h\<lparr>model := m, optimizer := opt, rng := r, training := t, trace := trace h @ evs\<rparr>"

subsection \<open>A small instance\<close>

text \<open>
  Five nodes with labels \<open>1, 0, 1, 0, 1\<close>.  The parameters are a number \<open>m\<close>; a row of
  the output is the predicted class, \<open>(node + m) mod 2\<close> on the whole graph and
  \<open>(node + block + m) mod 2\<close> on a sampled block.  The loss counts the wrong predictions,
  the score the right ones.  An update adds one to \<open>m\<close>.  A loader yields the whole split
  as one batch whose block depends on the generator state.  All losses are small whole
  numbers and halves, on which the float operations do not round.
\<close>

definition toy_labels :: "nat list" where
  "toy_labels = [1, 0, 1, 0, 1]"

definition toy_forward :: "nat \<Rightarrow> nat input \<Rightarrow> nat list" where
  "toy_forward m inp =
     (case inp of
        Whole \<Rightarrow> map (\<lambda>s. (s + m) mod 2) [0, 1, 2, 3, 4]
      | Sampled b \<Rightarrow> map (\<lambda>s. (s + block b + m) mod 2) (seeds b))"

definition toy_loss :: "nat list \<Rightarrow> nat list \<Rightarrow> real" where
  "toy_loss lg lbl = real (length (filter (\<lambda>(p, y). p \<noteq> y) (zip lg lbl)))"

definition toy_correct :: "nat list \<Rightarrow> nat list \<Rightarrow> nat" where
  "toy_correct yt yp = length (filter (\<lambda>(y, p). y = p) (zip yt yp))"

definition toy_idx :: "string \<Rightarrow> nat list" where
  "toy_idx mode =
     (if mode = ''train'' then [0, 1] else if mode = ''valid'' then [2] else [3])"

definition toy_evaluate :: "nat list \<Rightarrow> string \<Rightarrow> nat" where
  "toy_evaluate lg mode =
     toy_correct (map (\<lambda>i. toy_labels ! i) (toy_idx mode)) (map (\<lambda>i. lg ! i) (toy_idx mode))"

definition toy_loader :: "nat list \<Rightarrow> (nat, nat) loader" where
  "toy_loader idx = (\<lambda>r. ([\<lparr>seeds = idx, block = r\<rparr>], Suc r))"

definition toy_ops :: "(nat, unit, nat, nat, nat, nat) ops" where
  "toy_ops =
     \<lparr>forward_eval = toy_forward,
      forward_train = (\<lambda>m r inp. (toy_forward m inp, Suc r)),
      loss_fn = toy_loss,
      optim_step = (\<lambda>m opt r inp. (Suc m, opt)),
      argmax = (\<lambda>row. row),
      evaluator_f1 = toy_correct,
      task_evaluate = toy_evaluate,
      base_preprocess = (\<lambda>mo. mo),
      build_model_from_args = (\<lambda>a. nat (out_dim a)),
      candidate_optimizer = (\<lambda>a m. ()),
      data_loader = toy_loader,
      float_add = (\<lambda>x y. x + y),
      float_div = (\<lambda>x y. x / y)\<rparr>"

definition toy_args :: "bool \<Rightarrow> bool \<Rightarrow> bool \<Rightarrow> args" where
  "toy_args mini tst prd =
     \<lparr>mini_batch_flag = mini, test_flag = tst, prediction_flag = prd, dataset = ''acm4GTN'',
      patience = 1, out_dim = 2, category = ''paper'', out_node_type = [''paper'']\<rparr>"

definition toy_han ::
  "args \<Rightarrow> int \<Rightarrow> int \<Rightarrow> (nat, unit, nat, nat, nat) han" where
  "toy_han a n k =
     \<lparr>hargs = a, checkpoint = Some ''han.pt'', max_epoch = n, evaluate_interval = k,
      num_classes = 2, num_nodes = 5,
      model = 0, optimizer = (), rng = 0, training = True,
      train_idx = [0, 1], valid_idx = [2], test_idx = [3], pred_idx = Some [4],
      labels = toy_labels,
      train_loader = (if mini_batch_flag a then Some (toy_loader [0, 1]) else None),
      val_loader = (if mini_batch_flag a then Some (toy_loader [2]) else None),
      test_loader =
        (if mini_batch_flag a \<and> test_flag a then Some (toy_loader [3]) else None),
      pred_loader =
        (if mini_batch_flag a \<and> prediction_flag a then Some (toy_loader [4]) else None),
      trace = []\<rparr>"

text \<open>
  A validation loader that yields two batches of unequal size, \<open>[2]\<close> and \<open>[0, 1, 3]\<close>,
  and a training loader of the same kind.
\<close>

definition two_batches :: "(nat, nat) loader" where
  "two_batches = (\<lambda>r. ([\<lparr>seeds = [2], block = 0\<rparr>, \<lparr>seeds = [0, 1, 3], block = 0\<rparr>], r))"

definition toy_han2 :: "(nat, unit, nat, nat, nat) han" where
  "toy_han2 =
     (toy_han (toy_args True False False) 1 1)
       \<lparr>train_loader := Some two_batches, val_loader := Some two_batches\<rparr>"

text \<open>
  Loaders that yield the whole split as one batch, its nodes in reverse order, with
  block 0, for which the output on the block is the output on the whole graph at the
  seed nodes.
\<close>

definition whole_split :: "nat list \<Rightarrow> (nat, nat) loader" where
  "whole_split idx = (\<lambda>r. ([\<lparr>seeds = rev idx, block = 0\<rparr>], Suc r))"

definition toy_han3 :: "(nat, unit, nat, nat, nat) han" where
  "toy_han3 =
     (toy_han (toy_args True False False) 1 1)
       \<lparr>train_loader := Some (whole_split [0, 1]), val_loader := Some (whole_split [2])\<rparr>"

text \<open>What the constructor is given in the instance: three classes, no prediction set.\<close>

definition toy_setup :: "nat flow_setup" where
  "toy_setup =
     \<lparr>ds_category = ''paper'', ds_num_classes = 3, ds_has_out_dim = True, ds_num_nodes = 5,
      ds_split = ([0, 1], [2], [3]), ds_pred_idx = None, ds_labels = toy_labels,
      su_max_epoch = 1, su_evaluate_interval = 1, su_checkpoint = None, su_rng = 0\<rparr>"

text \<open>The instance on a dataset of the HGB benchmark, whose results are saved.\<close>

definition toy_hgb :: "(nat, unit, nat, nat, nat) han" where
  "toy_hgb = toy_han ((toy_args False True False)\<lparr>dataset := ''HGBn-ACM''\<rparr>) 3 1"

text \<open>The same run with \<open>_checkpoint = None\<close>.\<close>

definition toy_nopath :: "(nat, unit, nat, nat, nat) han" where
  "toy_nopath = toy_hgb\<lparr>checkpoint := None\<rparr>"

section \<open>Properties\<close>

subsection \<open>Basic facts\<close>

lemma emit_fields [simp]:
  "trace (emit ev h) = trace h @ [ev]"
  "labels (emit ev h) = labels h"
  "model (emit ev h) = model h"
  "optimizer (emit ev h) = optimizer h"
  "rng (emit ev h) = rng h"
  "training (emit ev h) = training h"
  "hargs (emit ev h) = hargs h"
  "checkpoint (emit ev h) = checkpoint h"
  "max_epoch (emit ev h) = max_epoch h"
  "evaluate_interval (emit ev h) = evaluate_interval h"
  "num_nodes (emit ev h) = num_nodes h"
  "train_idx (emit ev h) = train_idx h"
  "valid_idx (emit ev h) = valid_idx h"
  "test_idx (emit ev h) = test_idx h"
  "pred_idx (emit ev h) = pred_idx h"
  "train_loader (emit ev h) = train_loader h"
  "val_loader (emit ev h) = val_loader h"
  "test_loader (emit ev h) = test_loader h"
  "pred_loader (emit ev h) = pred_loader h"
  by (simp_all add: emit_def)

lemma index_select_seeds:
  "index_select lbls (seeds b) =
     (if in_range lbls b then Inr (batch_labels lbls b) else Inl IndexError)"
  by (simp add: index_select_def in_range_def batch_labels_def)

subsection \<open>The mini-batch training step\<close>

lemma length_train_losses [simp]:
  "length (train_losses ops m opt r lbls bs) = length bs"
  by (induction bs arbitrary: m opt r) (simp_all add: Let_def split: prod.splits)

lemma mini_train_batches_run:
  "list_all (in_range (labels h)) bs \<Longrightarrow>
   \<exists>h'. mini_train_batches ops h acc i (enumerate k bs) =
        Inr (h', foldl (float_add ops) acc
                   (train_losses ops (model h) (optimizer h) (rng h) (labels h) bs),
             (if bs = [] then i else Some (k + length bs - 1))) \<and>
      trace h' =
        trace h @ map OptimStep (train_losses ops (model h) (optimizer h) (rng h) (labels h) bs)"
proof (induction bs arbitrary: h acc i k)
  case Nil
  then show ?case by simp
next
  case (Cons b bs)
  obtain logits r where f: "forward_train ops (model h) (rng h) (Sampled b) = (logits, r)"
    by (cases "forward_train ops (model h) (rng h) (Sampled b)")
  obtain m opt where g: "optim_step ops (model h) (optimizer h) (rng h) (Sampled b) = (m, opt)"
    by (cases "optim_step ops (model h) (optimizer h) (rng h) (Sampled b)")
  define l where "l = loss_fn ops logits (batch_labels (labels h) b)"
  define h1 where "h1 = emit (OptimStep l) (h\<lparr>model := m, optimizer := opt, rng := r\<rparr>)"
  have fields: "labels h1 = labels h" "model h1 = m" "optimizer h1 = opt" "rng h1 = r"
    and tr1: "trace h1 = trace h @ [OptimStep l]"
    by (simp_all add: h1_def)
  define ls where "ls = train_losses ops m opt r (labels h) bs"
  have all: "train_losses ops (model h) (optimizer h) (rng h) (labels h) (b # bs) = l # ls"
    by (simp add: f g l_def ls_def)
  from Cons.prems have rest: "list_all (in_range (labels h1)) bs" and b: "in_range (labels h) b"
    by (simp_all add: fields)
  from Cons.IH [OF rest, of "float_add ops acc l" "Some k" "Suc k"]
  obtain h' where
    run: "mini_train_batches ops h1 (float_add ops acc l) (Some k) (enumerate (Suc k) bs) =
        Inr (h', foldl (float_add ops) (float_add ops acc l) ls,
             (if bs = [] then Some k else Some (Suc k + length bs - 1)))"
    and tr: "trace h' = trace h1 @ map OptimStep ls"
    unfolding fields ls_def by blast
  have step: "mini_train_batches ops h acc i (enumerate k (b # bs)) =
        mini_train_batches ops h1 (float_add ops acc l) (Some k) (enumerate (Suc k) bs)"
    using b f g by (simp add: index_select_seeds h1_def l_def Let_def)
  have "mini_train_batches ops h acc i (enumerate k (b # bs)) =
        Inr (h', foldl (float_add ops) acc (l # ls), Some (k + length (b # bs) - 1))"
    unfolding step run by (cases "bs = []") simp_all
  moreover have "trace h' = trace h @ map OptimStep (l # ls)"
    using tr tr1 by simp
  ultimately show ?case unfolding all by simp
qed

text \<open>
  Claim C2.  When the training loader yields the batches \<open>bs\<close>, at least one, and every
  seed node has a label, the mini-batch training step returns the sum of the losses
  \<open>l1, ..., ln\<close> of the batches divided by the number \<open>n\<close> of batches: the losses are
  added to \<open>0.0\<close> in the order of the batches and the sum is divided by \<open>n\<close>, with the
  addition and the division of Python floats.  The losses are those of \<open>train_losses\<close>,
  and they are the losses of the updates the step makes, one for each batch; the number
  of seed nodes of a batch does not enter the quotient.
\<close>

theorem mini_train_step_mean:
  assumes "train_loader h = Some ld" and "ld (rng h) = (bs, r)" and "bs \<noteq> []"
    and "list_all (in_range (labels h)) bs"
  shows "\<exists>h'. mini_train_step ops h =
           Inr (float_div ops
                  (foldl (float_add ops) 0
                     (train_losses ops (model h) (optimizer h) r (labels h) bs))
                  (real (length bs)), h') \<and>
           trace h' =
             trace h @ map OptimStep (train_losses ops (model h) (optimizer h) r (labels h) bs) \<and>
           length (train_losses ops (model h) (optimizer h) r (labels h) bs) = length bs"
proof -
  define h1 where "h1 = h\<lparr>training := True, rng := r\<rparr>"
  define ls where "ls = train_losses ops (model h) (optimizer h) r (labels h) bs"
  have "list_all (in_range (labels h1)) bs" and t1: "trace h1 = trace h"
    using assms(4) by (simp_all add: h1_def)
  from mini_train_batches_run [OF this(1), of ops 0 None 0]
  obtain h' where
    run: "mini_train_batches ops h1 0 None (enumerate 0 bs) =
            Inr (h', foldl (float_add ops) 0 ls, Some (length bs - 1))"
    and tr: "trace h' = trace h1 @ map OptimStep ls"
    using assms(3) by (auto simp: h1_def ls_def)
  have n: "real (length bs - 1 + 1) = real (length bs)"
    using assms(3) by (cases bs) simp_all
  have "mini_train_step ops h =
      Inr (float_div ops (foldl (float_add ops) 0 ls) (real (length bs)), h')"
    using assms(1,2) run unfolding mini_train_step_def h1_def n [symmetric]
    by (simp add: Let_def)
  moreover have "trace h' = trace h @ map OptimStep ls"
    using tr t1 by simp
  ultimately show ?thesis unfolding ls_def by simp
qed

text \<open>
  The instance with two batches of one and of three seed nodes.  Their losses are 1 and
  0, and the step returns 1/2.
\<close>

theorem mini_train_step_mean_witness:
  "train_loader toy_han2 = Some two_batches \<and>
   two_batches (rng toy_han2) =
     ([\<lparr>seeds = [2], block = 0\<rparr>, \<lparr>seeds = [0, 1, 3], block = 0\<rparr>], 0) \<and>
   train_losses toy_ops (model toy_han2) (optimizer toy_han2) 0 (labels toy_han2)
     [\<lparr>seeds = [2], block = 0\<rparr>, \<lparr>seeds = [0, 1, 3], block = 0\<rparr>] = [1, 0] \<and>
   (\<exists>h'. mini_train_step toy_ops toy_han2 = Inr (1 / 2, h') \<and>
      trace h' = trace toy_han2 @ [OptimStep 1, OptimStep 0])"
proof -
  let ?bs = "[\<lparr>seeds = [2], block = 0::nat\<rparr>, \<lparr>seeds = [0, 1, 3], block = 0\<rparr>]"
  have a: "train_loader toy_han2 = Some two_batches"
    by (simp add: toy_han2_def toy_han_def)
  have b: "two_batches (rng toy_han2) = (?bs, 0)"
    by (simp add: toy_han2_def toy_han_def two_batches_def)
  have c: "list_all (in_range (labels toy_han2)) ?bs"
    by (simp add: toy_han2_def toy_han_def toy_labels_def in_range_def)
  have ls: "train_losses toy_ops (model toy_han2) (optimizer toy_han2) 0 (labels toy_han2) ?bs =
      [1, 0]"
    by code_simp
  have v: "float_div toy_ops (foldl (float_add toy_ops) 0 [1, 0]) (real (length ?bs)) = 1 / 2"
    by (simp add: toy_ops_def)
  from mini_train_step_mean [OF a b _ c, of toy_ops]
  have "\<exists>h'. mini_train_step toy_ops toy_han2 = Inr (1 / 2, h') \<and>
      trace h' = trace toy_han2 @ [OptimStep 1, OptimStep 0]"
    unfolding ls v by simp
  with a b ls show ?thesis by (intro conjI)
qed

subsection \<open>Assignments to a dictionary\<close>

lemma assign_simps [simp]:
  "assign d [] = d"
  "assign d ((k, v) # kvs) = assign (AList.update k v d) kvs"
  by (simp_all add: assign_def)



subsection \<open>The mini-batch evaluation step\<close>

lemma mini_test_batches_run:
  "list_all (in_range lbls) bs \<Longrightarrow>
   mini_test_batches ops m lbls (la, i, l, yt, yp) (enumerate k bs) =
     Inr (foldl (float_add ops) la (map (batch_loss ops m lbls) bs),
          (if bs = [] then i else Some (k + length bs - 1)),
          (if bs = [] then l else Some (batch_loss ops m lbls (last bs))),
          yt @ map (batch_labels lbls) bs,
          yp @ map (\<lambda>b. forward_eval ops m (Sampled b)) bs)"
proof (induction bs arbitrary: la i l yt yp k)
  case Nil
  then show ?case by simp
next
  case (Cons b bs)
  then show ?case
    by (cases "bs = []")
      (simp_all add: index_select_seeds batch_loss_def Let_def)
qed

lemma mini_test_batches_fail:
  "\<not> list_all (in_range lbls) bs \<Longrightarrow>
   mini_test_batches ops m lbls (la, i, l, yt, yp) (enumerate k bs) = Inl IndexError"
proof (induction bs arbitrary: la i l yt yp k)
  case Nil
  then show ?case by simp
next
  case (Cons b bs)
  then show ?case
    by (cases "in_range lbls b") (simp_all add: index_select_seeds Let_def)
qed

lemma select_loader_rng [simp]:
  "select_loader (h\<lparr>rng := r\<rparr>) cur mode = select_loader h cur mode"
  "select_loader (h\<lparr>training := t\<rparr>) cur mode = select_loader h cur mode"
  by (simp_all add: select_loader_def)

lemma passes_rng [simp]:
  "passes (h\<lparr>rng := r\<rparr>) cur q modes = passes h cur q modes"
  by (induction modes arbitrary: cur q) (simp_all split: sum.splits prod.splits)

lemma passes_training [simp]:
  "passes (h\<lparr>training := t\<rparr>) cur q modes = passes h cur q modes"
  by (induction modes arbitrary: cur q) (simp_all split: sum.splits prod.splits)


lemma mini_test_modes_run:
  "passes h cur (rng h) modes = Some ps \<Longrightarrow>
   \<exists>r'. mini_test_modes ops h cur la i l md ld modes =
     Inr ((assign md (scores_of ops (model h) (labels h) ps),
           assign ld (last_losses_of ops (model h) (labels h) ps)), h\<lparr>rng := r'\<rparr>)"
proof (induction modes arbitrary: h cur la i l md ld ps)
  case Nil
  then have "ps = []" by simp
  moreover have "h = h\<lparr>rng := rng h\<rparr>" by simp
  ultimately show ?case
    by (metis assign_simps(1) list.simps(8) mini_test_modes.simps(1) scores_of_def last_losses_of_def)
next
  case (Cons mode modes)
  from Cons.prems obtain ldr where sel: "select_loader h cur mode = Inr ldr"
    by (auto split: sum.splits)
  obtain bs r where draw: "ldr (rng h) = (bs, r)" by (cases "ldr (rng h)")
  from Cons.prems sel draw have ne: "bs \<noteq> []" and ok: "list_all (in_range (labels h)) bs"
    by (auto split: if_splits)
  from Cons.prems sel draw ne ok obtain ps' where
    ps: "ps = (mode, bs) # ps'" and rest: "passes h (Some ldr) r modes = Some ps'"
    by auto
  define h1 where "h1 = h\<lparr>rng := r\<rparr>"
  have rest1: "passes h1 (Some ldr) (rng h1) modes = Some ps'"
    using rest by (simp add: h1_def)
  let ?la = "float_div ops
      (foldl (float_add ops) la (map (batch_loss ops (model h) (labels h)) bs))
      (real (length bs - 1 + 1))"
  let ?l = "batch_loss ops (model h) (labels h) (last bs)"
  from Cons.IH [OF rest1, of ?la "Some (length bs - 1)" "Some ?l"
      "AList.update mode (pass_score ops (model h) (labels h) bs) md" "AList.update mode ?l ld"]
  obtain r' where run:
    "mini_test_modes ops h1 (Some ldr) ?la (Some (length bs - 1)) (Some ?l)
       (AList.update mode (pass_score ops (model h) (labels h) bs) md) (AList.update mode ?l ld) modes =
     Inr ((assign (AList.update mode (pass_score ops (model h) (labels h) bs) md)
             (scores_of ops (model h1) (labels h1) ps'),
           assign (AList.update mode ?l ld) (last_losses_of ops (model h1) (labels h1) ps')),
          h1\<lparr>rng := r'\<rparr>)"
    by blast
  have "mini_test_modes ops h cur la i l md ld (mode # modes) =
     mini_test_modes ops h1 (Some ldr) ?la (Some (length bs - 1)) (Some ?l)
       (AList.update mode (pass_score ops (model h) (labels h) bs) md) (AList.update mode ?l ld) modes"
    using sel draw ne
    by (simp add: mini_test_batches_run [OF ok] torch_cat_def pass_score_def h1_def)
  with run show ?case
    by (auto simp: ps h1_def scores_of_def last_losses_of_def)
qed

lemma mini_test_modes_fail:
  "passes h cur (rng h) modes = None \<Longrightarrow>
   \<exists>e. mini_test_modes ops h cur la i l md ld modes = Inl e"
proof (induction modes arbitrary: h cur la i l md ld)
  case Nil
  then show ?case by simp
next
  case (Cons mode modes)
  show ?case
  proof (cases "select_loader h cur mode")
    case (Inl e)
    then show ?thesis by simp
  next
    case (Inr ldr)
    obtain bs r where draw: "ldr (rng h) = (bs, r)" by (cases "ldr (rng h)")
    show ?thesis
    proof (cases "list_all (in_range (labels h)) bs")
      case False
      then show ?thesis using Inr draw
        by (simp add: mini_test_batches_fail)
    next
      case ok: True
      show ?thesis
      proof (cases "bs = []")
        case True
        then show ?thesis using Inr draw
          by (simp add: torch_cat_def split: option.splits)
      next
        case False
        with Cons.prems Inr draw ok have rest: "passes h (Some ldr) r modes = None"
          by simp
        then have "passes (h\<lparr>rng := r\<rparr>) (Some ldr) (rng (h\<lparr>rng := r\<rparr>)) modes = None"
          by simp
        from Cons.IH [OF this] show ?thesis using Inr draw False
          by (simp add: mini_test_batches_run [OF ok] torch_cat_def)
      qed
    qed
  qed
qed

lemma mini_test_step_Inr:
  assumes "mini_test_step ops h modes = Inr ((md, ld), h')"
  shows "\<exists>ps r'. passes h None (rng h) modes = Some ps \<and>
           md = assign [] (scores_of ops (model h) (labels h) ps) \<and>
           ld = assign [] (last_losses_of ops (model h) (labels h) ps) \<and>
           h' = h\<lparr>training := False, rng := r'\<rparr>"
proof (cases "passes h None (rng h) modes")
  case None
  then have "passes (h\<lparr>training := False\<rparr>) None (rng (h\<lparr>training := False\<rparr>)) modes = None"
    by simp
  from mini_test_modes_fail [OF this, of ops 0 None None "[]" "[]"] assms show ?thesis
    by (auto simp: mini_test_step_def)
next
  case (Some ps)
  then have "passes (h\<lparr>training := False\<rparr>) None (rng (h\<lparr>training := False\<rparr>)) modes = Some ps"
    by simp
  from mini_test_modes_run [OF this, of ops 0 None None "[]" "[]"] assms Some show ?thesis
    by (auto simp: mini_test_step_def)
qed



text \<open>
  Claim C1 (a defect of the code).  \<open>_mini_test_step\<close> divides \<open>loss_all\<close> by the number
  of batches and then stores \<open>loss\<close>, the loss of the last batch, in \<open>loss_dict\<close>.  With
  two validation batches whose losses are 1 and 3 the step reports 3; their mean is 2.
\<close>

theorem mini_test_step_reports_last_loss:
  "(case mini_test_step toy_ops toy_han2 [''valid''] of
      Inl e \<Rightarrow> None | Inr ((md, ld), h) \<Rightarrow> map_of ld ''valid'') = Some 3 \<and>
   map (batch_loss toy_ops (model toy_han2) (labels toy_han2)) (fst (two_batches 0)) = [1, 3]"
  by code_simp

subsection \<open>Evaluating twice\<close>

lemma build_masks_training [simp]:
  "build_masks (h\<lparr>training := t\<rparr>) masks modes = build_masks h masks modes"
  by (induction modes arbitrary: masks) simp_all

lemma full_test_step_state:
  "full_test_step ops h modes = Inr (res, h') \<Longrightarrow> h' = h\<lparr>training := False\<rparr>"
  by (auto simp: full_test_step_def Let_def split: sum.splits)

lemma full_test_step_training [simp]:
  "full_test_step ops (h\<lparr>training := t\<rparr>) modes =
   map_sum id (\<lambda>(res, h'). (res, h')) (full_test_step ops h modes)"
  by (simp add: full_test_step_def Let_def split: sum.splits)

lemma select_loader_mem:
  "select_loader h cur mode = Inr ldr \<Longrightarrow>
   Some ldr \<in> {train_loader h, val_loader h, test_loader h, cur}"
  by (auto simp: select_loader_def split: if_splits option.splits)

lemma passes_fixed_order:
  assumes "\<And>ld r r'. Some ld \<in> {train_loader h, val_loader h, test_loader h, cur} \<Longrightarrow>
             fst (ld r) = fst (ld r')"
  shows "passes h cur q modes = passes h cur q' modes"
  using assms
proof (induction modes arbitrary: cur q q')
  case Nil
  then show ?case by simp
next
  case (Cons mode modes)
  show ?case
  proof (cases "select_loader h cur mode")
    case (Inl e)
    then show ?thesis by simp
  next
    case (Inr ldr)
    from select_loader_mem [OF Inr]
    have mem: "Some ldr \<in> {train_loader h, val_loader h, test_loader h, cur}" .
    obtain bs r where d1: "ldr q = (bs, r)" by (cases "ldr q")
    obtain bs' r' where d2: "ldr q' = (bs', r')" by (cases "ldr q'")
    from Cons.prems [OF mem, of q q'] d1 d2 have same: "bs' = bs" by simp
    have "passes h (Some ldr) r modes = passes h (Some ldr) r' modes"
    proof (rule Cons.IH)
      fix ld a b
      assume "Some ld \<in> {train_loader h, val_loader h, test_loader h, Some ldr}"
      then have "Some ld \<in> {train_loader h, val_loader h, test_loader h, cur}"
        using mem by auto
      then show "fst (ld a) = fst (ld b)" by (rule Cons.prems)
    qed
    then show ?thesis using Inr d1 d2 same by simp
  qed
qed

text \<open>
  Claim C6, as amended.  The full-batch evaluation step, called twice in succession,
  returns the same scores and losses both times.  The mini-batch evaluation step does
  so when every loader yields the same batches at each traversal; the step itself
  changes neither the parameters nor the labels.
\<close>

theorem evaluation_twice:
  "(full_test_step ops h modes = Inr (res, h1) \<longrightarrow>
      twice (\<lambda>h. full_test_step ops h modes) h = Inr (res, res)) \<and>
   ((\<forall>ld r r'. Some ld \<in> {train_loader h, val_loader h, test_loader h} \<longrightarrow>
        fst (ld r) = fst (ld r')) \<longrightarrow>
    mini_test_step ops h modes = Inr (res', h2) \<longrightarrow>
      twice (\<lambda>h. mini_test_step ops h modes) h = Inr (res', res'))"
proof (intro conjI impI)
  assume run: "full_test_step ops h modes = Inr (res, h1)"
  then have "h1 = h\<lparr>training := False\<rparr>" by (rule full_test_step_state)
  then have "full_test_step ops h1 modes = Inr (res, h1)"
    using run by simp
  with run show "twice (\<lambda>h. full_test_step ops h modes) h = Inr (res, res)"
    by (simp add: twice_def)
next
  assume det: "\<forall>ld r r'. Some ld \<in> {train_loader h, val_loader h, test_loader h} \<longrightarrow>
        fst (ld r) = fst (ld r')"
    and run: "mini_test_step ops h modes = Inr (res', h2)"
  obtain md ld where res': "res' = (md, ld)" by (cases res')
  from mini_test_step_Inr [OF run [unfolded res']] obtain ps r' where
    ps: "passes h None (rng h) modes = Some ps"
    and md: "md = assign [] (scores_of ops (model h) (labels h) ps)"
    and ld: "ld = assign [] (last_losses_of ops (model h) (labels h) ps)"
    and h2: "h2 = h\<lparr>training := False, rng := r'\<rparr>"
    by blast
  have "passes h None r' modes = passes h None (rng h) modes"
    by (rule passes_fixed_order) (use det in auto)
  then have "passes (h2\<lparr>training := False\<rparr>) None (rng (h2\<lparr>training := False\<rparr>)) modes = Some ps"
    using ps by (simp add: h2)
  from mini_test_modes_run [OF this, of ops 0 None None "[]" "[]"]
  obtain r'' where "mini_test_step ops h2 modes = Inr (res', h2\<lparr>training := False, rng := r''\<rparr>)"
    by (auto simp: mini_test_step_def res' md ld h2)
  with run show "twice (\<lambda>h. mini_test_step ops h modes) h = Inr (res', res')"
    by (simp add: twice_def)
qed

text \<open>An instance whose loaders yield the same two batches at each traversal.\<close>

theorem evaluation_twice_witness:
  "twice (\<lambda>h. full_test_step toy_ops h [''valid'']) toy_han2 =
     Inr (([(''valid'', 0)], [(''valid'', 1)]), ([(''valid'', 0)], [(''valid'', 1)])) \<and>
   twice (\<lambda>h. mini_test_step toy_ops h [''valid'']) toy_han2 =
     Inr (([(''valid'', 0)], [(''valid'', 3)]), ([(''valid'', 0)], [(''valid'', 3)]))"
proof -
  have "(case full_test_step toy_ops toy_han2 [''valid''] of
           Inl e \<Rightarrow> None | Inr ((md, ld), h) \<Rightarrow> Some (md, ld)) =
        Some ([(''valid'', 0)], [(''valid'', 1)])"
    by code_simp
  then obtain h1 where
    full: "full_test_step toy_ops toy_han2 [''valid''] =
            Inr (([(''valid'', 0)], [(''valid'', 1)]), h1)"
    by (auto split: sum.splits)
  have "(case mini_test_step toy_ops toy_han2 [''valid''] of
           Inl e \<Rightarrow> None | Inr ((md, ld), h) \<Rightarrow> Some (md, ld)) =
        Some ([(''valid'', 0)], [(''valid'', 3)])"
    by code_simp
  then obtain h2 where
    mini: "mini_test_step toy_ops toy_han2 [''valid''] =
            Inr (([(''valid'', 0)], [(''valid'', 3)]), h2)"
    by (auto split: sum.splits)
  have det: "\<forall>ld r r'. Some ld \<in> {train_loader toy_han2, val_loader toy_han2, test_loader toy_han2} \<longrightarrow>
        fst (ld r) = fst (ld r')"
    by (simp add: toy_han2_def toy_han_def toy_args_def two_batches_def)
  note t = evaluation_twice [of toy_ops toy_han2 "[''valid'']"
      "([(''valid'', 0)], [(''valid'', 1)])" h1 "([(''valid'', 0)], [(''valid'', 3)])" h2]
  show ?thesis
    by (rule conjI [OF t [THEN conjunct1, THEN mp, OF full]
          t [THEN conjunct2, THEN mp, OF det, THEN mp, OF mini]])
qed

text \<open>
  Claim C6 as it stands fails: the loaders shuffle and sample, so two traversals of the
  validation loader may yield different batches.  In the instance the second traversal
  yields another block, and the score and the loss of the second call differ from those
  of the first.
\<close>

theorem evaluation_twice_counterexample:
  "twice (\<lambda>h. mini_test_step toy_ops h [''valid'']) (toy_han (toy_args True False False) 1 1) =
     Inr (([(''valid'', 0)], [(''valid'', 1)]), ([(''valid'', 1)], [(''valid'', 0)]))"
  by code_simp

subsection \<open>Full-batch and mini-batch evaluation\<close>

lemma update_fresh: "k \<notin> fst ` set al \<Longrightarrow> AList.update k v al = al @ [(k, v)]"
  by (induction al) auto

lemma assign_fresh:
  "distinct (map fst kvs) \<Longrightarrow> fst ` set kvs \<inter> fst ` set d = {} \<Longrightarrow> assign d kvs = d @ kvs"
proof (induction kvs arbitrary: d)
  case Nil
  then show ?case by simp
next
  case (Cons kv kvs)
  obtain k v where kv: "kv = (k, v)" by (cases kv)
  from Cons.prems have fresh: "k \<notin> fst ` set d" by (auto simp: kv)
  have "assign (d @ [(k, v)]) kvs = (d @ [(k, v)]) @ kvs"
    by (rule Cons.IH) (use Cons.prems in \<open>auto simp: kv\<close>)
  then show ?case by (simp add: kv update_fresh [OF fresh])
qed

lemma build_masks_splits:
  "set modes \<subseteq> {''train'', ''valid'', ''test''} \<Longrightarrow> distinct modes \<Longrightarrow>
   set modes \<inter> fst ` set masks = {} \<Longrightarrow>
   build_masks h masks modes = masks @ map (\<lambda>mode. (mode, split_idx h mode)) modes"
proof (induction modes arbitrary: masks)
  case Nil
  then show ?case by simp
next
  case (Cons mode modes)
  from Cons.prems have fresh: "mode \<notin> fst ` set masks" by auto
  from Cons.prems have m: "mode = ''train'' \<or> mode = ''valid'' \<or> mode = ''test''" by auto
  have upd: "AList.update mode v masks = masks @ [(mode, v)]" for v
    by (rule update_fresh [OF fresh])
  have step: "build_masks h masks (mode # modes) =
      build_masks h (masks @ [(mode, split_idx h mode)]) modes"
  proof -
    have "(if mode = ''train'' then AList.update mode (train_idx h) masks
           else if mode = ''valid'' then AList.update mode (valid_idx h) masks
           else if mode = ''test'' then AList.update mode (test_idx h) masks
           else masks) = AList.update mode (split_idx h mode) masks"
      using m by (elim disjE) (simp_all add: split_idx_def)
    then show ?thesis by (simp only: build_masks.simps upd)
  qed
  have "build_masks h (masks @ [(mode, split_idx h mode)]) modes =
      (masks @ [(mode, split_idx h mode)]) @ map (\<lambda>mode. (mode, split_idx h mode)) modes"
    by (rule Cons.IH) (use Cons.prems in auto)
  with step show ?case by simp
qed

lemma full_losses_splits:
  "\<forall>mode \<in> set modes. list_all (\<lambda>i. i < length lbls \<and> i < length logits) (idx mode) \<Longrightarrow>
   full_losses ops logits lbls (map (\<lambda>mode. (mode, idx mode)) modes) =
     Inr (map (\<lambda>mode. (mode, loss_fn ops (map (\<lambda>i. logits ! i) (idx mode))
                                 (map (\<lambda>i. lbls ! i) (idx mode)))) modes)"
proof (induction modes)
  case Nil
  then show ?case by simp
next
  case (Cons mode modes)
  from Cons.prems have "list_all (\<lambda>i. i < length logits) (idx mode)"
    and "list_all (\<lambda>i. i < length lbls) (idx mode)"
    by (auto simp: list_all_iff)
  then show ?case using Cons by (simp add: index_select_def)
qed

lemma select_loader_split:
  "mode \<in> {''train'', ''valid'', ''test''} \<Longrightarrow> split_loader h mode = Some ld \<Longrightarrow>
   select_loader h cur mode = Inr ld"
  by (auto simp: select_loader_def split_loader_def)

lemma passes_single:
  assumes "\<And>mode r. mode \<in> set modes \<Longrightarrow>
             \<exists>ld b r'. split_loader h mode = Some ld \<and> ld r = ([b], r') \<and>
               in_range (labels h) b \<and> P mode b"
    and "set modes \<subseteq> {''train'', ''valid'', ''test''}"
  shows "\<exists>ps. passes h cur q modes = Some ps \<and>
           list_all2 (\<lambda>mode p. fst p = mode \<and> (\<exists>b. snd p = [b] \<and> P mode b)) modes ps"
  using assms
proof (induction modes arbitrary: cur q)
  case Nil
  then show ?case by simp
next
  case (Cons mode modes)
  from Cons.prems(1) [of mode q] obtain ld b r' where
    ld: "split_loader h mode = Some ld" and draw: "ld q = ([b], r')"
    and ok: "in_range (labels h) b" and pb: "P mode b"
    by auto
  from Cons.prems(2) have "mode \<in> {''train'', ''valid'', ''test''}" by simp
  from select_loader_split [OF this ld] have sel: "select_loader h cur mode = Inr ld" .
  have "\<exists>ps. passes h (Some ld) r' modes = Some ps \<and>
           list_all2 (\<lambda>mode p. fst p = mode \<and> (\<exists>b. snd p = [b] \<and> P mode b)) modes ps"
    by (rule Cons.IH) (use Cons.prems in auto)
  then obtain ps where ps: "passes h (Some ld) r' modes = Some ps"
    and all: "list_all2 (\<lambda>mode p. fst p = mode \<and> (\<exists>b. snd p = [b] \<and> P mode b)) modes ps"
    by blast
  have "passes h cur q (mode # modes) = Some ((mode, [b]) # ps)"
    using sel draw ok ps by simp
  moreover have "list_all2 (\<lambda>mode p. fst p = mode \<and> (\<exists>b. snd p = [b] \<and> P mode b))
              (mode # modes) ((mode, [b]) # ps)"
    using all pb by simp
  ultimately show ?case by blast
qed

lemma list_all2_map_eq:
  "list_all2 (\<lambda>x y. F y = G x) xs ys \<Longrightarrow> map F ys = map G xs"
  by (induction rule: list_all2_induct) simp_all

lemma length_filter_mset:
  "mset xs = mset ys \<Longrightarrow> length (filter P xs) = length (filter P ys)"
  by (metis mset_filter size_mset)

lemma zip_map_same: "zip (map f xs) (map g xs) = map (\<lambda>x. (f x, g x)) xs"
  by (induction xs) simp_all

text \<open>
  Claim C8, as amended.  Let every requested split have a loader that yields, at each
  traversal, one batch holding the nodes of the split's index set, in any order, for
  which the model's output on the sampled block is its output on the whole graph at the
  seed nodes.  Let the loss function and the evaluator not depend on the order in which
  the nodes are listed, and let the task's \<open>evaluate\<close> compute the metric of the evaluator
  of the mini-batch step on the split's labels and predicted classes.  Then the
  full-batch and the mini-batch evaluation step return the same losses and the same
  scores.
\<close>

theorem full_mini_agree:
  assumes "set modes \<subseteq> {''train'', ''valid'', ''test''}" and "distinct modes"
    and "\<And>mode r. mode \<in> set modes \<Longrightarrow>
           \<exists>ld b r'. split_loader h mode = Some ld \<and> ld r = ([b], r') \<and>
             mset (seeds b) = mset (split_idx h mode) \<and>
             forward_eval ops (model h) (Sampled b) =
               map (\<lambda>i. forward_eval ops (model h) Whole ! i) (seeds b)"
    and "\<And>mode. mode \<in> set modes \<Longrightarrow>
           list_all (\<lambda>i. i < length (labels h) \<and> i < length (forward_eval ops (model h) Whole))
             (split_idx h mode)"
    and "\<And>mode. mode \<in> set modes \<Longrightarrow>
           task_evaluate ops (forward_eval ops (model h) Whole) mode =
             evaluator_f1 ops (map (\<lambda>i. labels h ! i) (split_idx h mode))
               (map (argmax ops)
                  (map (\<lambda>i. forward_eval ops (model h) Whole ! i) (split_idx h mode)))"
    and "\<And>xs ys. mset xs = mset ys \<Longrightarrow>
           loss_fn ops (map (\<lambda>i. forward_eval ops (model h) Whole ! i) xs)
             (map (\<lambda>i. labels h ! i) xs) =
           loss_fn ops (map (\<lambda>i. forward_eval ops (model h) Whole ! i) ys)
             (map (\<lambda>i. labels h ! i) ys)"
    and "\<And>xs ys. mset xs = mset ys \<Longrightarrow>
           evaluator_f1 ops (map (\<lambda>i. labels h ! i) xs)
             (map (argmax ops) (map (\<lambda>i. forward_eval ops (model h) Whole ! i) xs)) =
           evaluator_f1 ops (map (\<lambda>i. labels h ! i) ys)
             (map (argmax ops) (map (\<lambda>i. forward_eval ops (model h) Whole ! i) ys))"
  shows "\<exists>res h1 h2. full_test_step ops h modes = Inr (res, h1) \<and>
           mini_test_step ops h modes = Inr (res, h2)"
proof -
  define W where "W = forward_eval ops (model h) Whole"
  define f where "f = (\<lambda>mode. task_evaluate ops W mode)"
  define g where "g = (\<lambda>mode. loss_fn ops (map (\<lambda>i. W ! i) (split_idx h mode))
                           (map (\<lambda>i. labels h ! i) (split_idx h mode)))"
  define res where "res = (map (\<lambda>mode. (mode, f mode)) modes, map (\<lambda>mode. (mode, g mode)) modes)"
  define h0 where "h0 = h\<lparr>training := False\<rparr>"
  have idx0: "split_idx h0 = split_idx h"
    by (simp add: h0_def split_idx_def fun_eq_iff)
  have masks: "build_masks h0 [] modes = map (\<lambda>mode. (mode, split_idx h mode)) modes"
    using build_masks_splits [OF assms(1,2), of "[]" h0] by (simp add: idx0)
  have "\<forall>mode \<in> set modes. list_all (\<lambda>i. i < length (labels h) \<and> i < length W) (split_idx h mode)"
    using assms(4) by (simp add: W_def)
  from full_losses_splits [OF this, of ops]
  have losses: "full_losses ops W (labels h) (map (\<lambda>mode. (mode, split_idx h mode)) modes) =
      Inr (map (\<lambda>mode. (mode, g mode)) modes)"
    by (simp add: g_def)
  have full: "full_test_step ops h modes = Inr (res, h0)"
    using masks losses
    by (simp add: full_test_step_def Let_def h0_def [symmetric] W_def [symmetric]
        res_def f_def comp_def, simp add: h0_def W_def)
  define P where "P = (\<lambda>mode b. pass_score ops (model h) (labels h) [b] = f mode \<and>
                        batch_loss ops (model h) (labels h) b = g mode)"
  have one: "\<exists>ld b r'. split_loader h mode = Some ld \<and> ld r = ([b], r') \<and>
               in_range (labels h) b \<and> P mode b" if "mode \<in> set modes" for mode r
  proof -
    from assms(3) [OF that, of r] obtain ld b r' where
      ld: "split_loader h mode = Some ld" and draw: "ld r = ([b], r')"
      and ms: "mset (seeds b) = mset (split_idx h mode)"
      and fw: "forward_eval ops (model h) (Sampled b) = map (\<lambda>i. W ! i) (seeds b)"
      unfolding W_def by blast
    from ms have "set (seeds b) = set (split_idx h mode)" by (rule mset_eq_setD)
    with assms(4) [OF that] have ok: "in_range (labels h) b"
      by (simp add: in_range_def list_all_iff)
    have "pass_score ops (model h) (labels h) [b] =
        evaluator_f1 ops (map (\<lambda>i. labels h ! i) (seeds b))
          (map (argmax ops) (map (\<lambda>i. W ! i) (seeds b)))"
      by (simp add: pass_score_def batch_labels_def fw)
    also have "\<dots> = evaluator_f1 ops (map (\<lambda>i. labels h ! i) (split_idx h mode))
          (map (argmax ops) (map (\<lambda>i. W ! i) (split_idx h mode)))"
      unfolding W_def by (rule assms(7) [OF ms])
    also have "\<dots> = f mode"
      using assms(5) [OF that] by (simp add: f_def W_def)
    finally have sc: "pass_score ops (model h) (labels h) [b] = f mode" .
    have "batch_loss ops (model h) (labels h) b =
        loss_fn ops (map (\<lambda>i. W ! i) (seeds b)) (map (\<lambda>i. labels h ! i) (seeds b))"
      by (simp add: batch_loss_def batch_labels_def fw)
    also have "\<dots> = g mode"
      unfolding g_def W_def by (rule assms(6) [OF ms])
    finally have "batch_loss ops (model h) (labels h) b = g mode" .
    with sc ld draw ok show ?thesis unfolding P_def by blast
  qed
  have "\<exists>ps. passes h None (rng h) modes = Some ps \<and>
           list_all2 (\<lambda>mode p. fst p = mode \<and> (\<exists>b. snd p = [b] \<and> P mode b)) modes ps"
    using one assms(1) by (rule passes_single)
  then obtain ps where ps: "passes h None (rng h) modes = Some ps"
    and all: "list_all2 (\<lambda>mode p. fst p = mode \<and> (\<exists>b. snd p = [b] \<and> P mode b)) modes ps"
    by blast
  have "list_all2 (\<lambda>mode p. (case p of (mode', bs) \<Rightarrow>
            (mode', pass_score ops (model h) (labels h) bs)) = (mode, f mode)) modes ps"
    using all
  proof (rule list_all2_mono)
    fix mode p
    assume "fst p = mode \<and> (\<exists>b. snd p = [b] \<and> P mode b)"
    then show "(case p of (mode', bs) \<Rightarrow> (mode', pass_score ops (model h) (labels h) bs)) =
        (mode, f mode)"
      by (cases p) (auto simp: P_def)
  qed
  then have scores: "scores_of ops (model h) (labels h) ps = map (\<lambda>mode. (mode, f mode)) modes"
    unfolding scores_of_def by (rule list_all2_map_eq)
  have "list_all2 (\<lambda>mode p. (case p of (mode', bs) \<Rightarrow>
            (mode', batch_loss ops (model h) (labels h) (last bs))) = (mode, g mode)) modes ps"
    using all
  proof (rule list_all2_mono)
    fix mode p
    assume "fst p = mode \<and> (\<exists>b. snd p = [b] \<and> P mode b)"
    then show "(case p of (mode', bs) \<Rightarrow> (mode', batch_loss ops (model h) (labels h) (last bs))) =
        (mode, g mode)"
      by (cases p) (auto simp: P_def)
  qed
  then have losses': "last_losses_of ops (model h) (labels h) ps = map (\<lambda>mode. (mode, g mode)) modes"
    unfolding last_losses_of_def by (rule list_all2_map_eq)
  have df: "distinct (map fst (map (\<lambda>mode. (mode, f mode)) modes))"
    and dg: "distinct (map fst (map (\<lambda>mode. (mode, g mode)) modes))"
    using assms(2) by (simp_all add: comp_def)
  have "passes h0 None (rng h0) modes = Some ps"
    using ps by (simp add: h0_def)
  from mini_test_modes_run [OF this, of ops 0 None None "[]" "[]"]
  obtain r' where "mini_test_step ops h modes = Inr (res, h0\<lparr>rng := r'\<rparr>)"
    by (auto simp: mini_test_step_def h0_def scores losses' res_def assign_fresh [OF df]
        assign_fresh [OF dg])
  with full show ?thesis by blast
qed

text \<open>
  The instance in which the training and the validation loader yield their split as one
  batch with block 0, the nodes in reverse order.
\<close>

theorem full_mini_agree_witness:
  "set [''train'', ''valid''] \<subseteq> {''train'', ''valid'', ''test''} \<and>
   distinct [''train'', ''valid''] \<and>
   fst (whole_split [0, 1] 0) = [\<lparr>seeds = [1, 0], block = 0\<rparr>] \<and>
   (\<exists>res h1 h2. full_test_step toy_ops toy_han3 [''train'', ''valid''] = Inr (res, h1) \<and>
      mini_test_step toy_ops toy_han3 [''train'', ''valid''] = Inr (res, h2))"
proof -
  have a: "set [''train'', ''valid''] \<subseteq> {''train'', ''valid'', ''test''}" by simp
  have b: "distinct [''train'', ''valid'']" by simp
  have c: "\<exists>ld b r'. split_loader toy_han3 mode = Some ld \<and> ld r = ([b], r') \<and>
             mset (seeds b) = mset (split_idx toy_han3 mode) \<and>
             forward_eval toy_ops (model toy_han3) (Sampled b) =
               map (\<lambda>i. forward_eval toy_ops (model toy_han3) Whole ! i) (seeds b)"
    if "mode \<in> set [''train'', ''valid'']" for mode r
  proof -
    from that consider "mode = ''train''" | "mode = ''valid''" by auto
    then show ?thesis
    proof cases
      case 1
      show ?thesis
        by (rule exI [of _ "whole_split [0, 1]"], rule exI [of _ "\<lparr>seeds = [1, 0], block = 0\<rparr>"],
            rule exI [of _ "Suc r"])
          (simp add: 1 split_loader_def split_idx_def toy_han3_def toy_han_def whole_split_def
            toy_ops_def toy_forward_def)
    next
      case 2
      show ?thesis
        by (rule exI [of _ "whole_split [2]"], rule exI [of _ "\<lparr>seeds = [2], block = 0\<rparr>"],
            rule exI [of _ "Suc r"])
          (simp add: 2 split_loader_def split_idx_def toy_han3_def toy_han_def whole_split_def
            toy_ops_def toy_forward_def)
    qed
  qed
  have d: "list_all (\<lambda>i. i < length (labels toy_han3) \<and>
             i < length (forward_eval toy_ops (model toy_han3) Whole)) (split_idx toy_han3 mode)"
    if "mode \<in> set [''train'', ''valid'']" for mode
    using that
    by (auto simp: split_idx_def toy_han3_def toy_han_def toy_ops_def toy_forward_def
        toy_labels_def)
  have e: "task_evaluate toy_ops (forward_eval toy_ops (model toy_han3) Whole) mode =
             evaluator_f1 toy_ops (map (\<lambda>i. labels toy_han3 ! i) (split_idx toy_han3 mode))
               (map (argmax toy_ops)
                  (map (\<lambda>i. forward_eval toy_ops (model toy_han3) Whole ! i)
                     (split_idx toy_han3 mode)))"
    if "mode \<in> set [''train'', ''valid'']" for mode
    using that
    by (auto simp: split_idx_def toy_han3_def toy_han_def toy_ops_def toy_evaluate_def
        toy_idx_def)
  have f: "loss_fn toy_ops (map (\<lambda>i. forward_eval toy_ops (model toy_han3) Whole ! i) xs)
             (map (\<lambda>i. labels toy_han3 ! i) xs) =
           loss_fn toy_ops (map (\<lambda>i. forward_eval toy_ops (model toy_han3) Whole ! i) ys)
             (map (\<lambda>i. labels toy_han3 ! i) ys)"
    if "mset xs = mset ys" for xs ys
    using length_filter_mset [OF that]
    by (simp add: toy_ops_def toy_loss_def zip_map_same filter_map comp_def)
  have g: "evaluator_f1 toy_ops (map (\<lambda>i. labels toy_han3 ! i) xs)
             (map (argmax toy_ops) (map (\<lambda>i. forward_eval toy_ops (model toy_han3) Whole ! i) xs)) =
           evaluator_f1 toy_ops (map (\<lambda>i. labels toy_han3 ! i) ys)
             (map (argmax toy_ops) (map (\<lambda>i. forward_eval toy_ops (model toy_han3) Whole ! i) ys))"
    if "mset xs = mset ys" for xs ys
    using length_filter_mset [OF that]
    by (simp add: toy_ops_def toy_correct_def zip_map_same filter_map comp_def)
  have w: "fst (whole_split [0, 1] 0) = [\<lparr>seeds = [1, 0], block = 0\<rparr>]"
    by (simp add: whole_split_def)
  from full_mini_agree [of "[''train'', ''valid'']" toy_han3 toy_ops, OF a b c d e f g]
  show ?thesis using a b w by (intro conjI)
qed

text \<open>
  Claim C8 as it stands fails: the mini-batch step evaluates the model on the block that
  the neighbour sampler drew, the full-batch step on the whole graph.  In the instance
  every loader yields its whole split as one batch; the block of the validation batch
  differs from the whole graph, and the validation score and loss of the two steps
  differ.
\<close>

theorem full_mini_agree_counterexample:
  "(case full_test_step toy_ops (toy_han (toy_args True False False) 1 1) [''train'', ''valid''] of
      Inl e \<Rightarrow> None | Inr (res, h) \<Rightarrow> Some res) =
     Some ([(''train'', 0), (''valid'', 0)], [(''train'', 2), (''valid'', 1)]) \<and>
   (case mini_test_step toy_ops (toy_han (toy_args True False False) 1 1) [''train'', ''valid''] of
      Inl e \<Rightarrow> None | Inr (res, h) \<Rightarrow> Some res) =
     Some ([(''train'', 0), (''valid'', 1)], [(''train'', 2), (''valid'', 0)]) \<and>
   map_option (\<lambda>ld. fst (ld 0)) (train_loader (toy_han (toy_args True False False) 1 1)) =
     Some [\<lparr>seeds = [0, 1], block = 0\<rparr>] \<and>
   map_option (\<lambda>ld. fst (ld 1)) (val_loader (toy_han (toy_args True False False) 1 1)) =
     Some [\<lparr>seeds = [2], block = 1\<rparr>]"
  by code_simp

subsection \<open>Prediction\<close>

lemma mini_prediction_batches_run:
  "mini_prediction_batches ops m (ind, yp) bs =
     (ind @ map seeds bs, yp @ map (\<lambda>b. forward_eval ops m (Sampled b)) bs)"
  by (induction bs arbitrary: ind yp) simp_all

lemma zip_concat_batches:
  "\<forall>b \<in> set bs. length (f b) = length (g b) \<Longrightarrow>
   zip (concat (map g bs)) (concat (map f bs)) = concat (map (\<lambda>b. zip (g b) (f b)) bs)"
  by (induction bs) simp_all

lemma length_concat_batches:
  "\<forall>b \<in> set bs. length (f b) = length (g b) \<Longrightarrow>
   length (concat (map g bs)) = length (concat (map f bs))"
  by (induction bs) simp_all

lemma count_list_upt: "count_list [0..<n] x = (if x < n then 1 else 0)"
  by (induction n) auto

text \<open>
  Claim C7.  When the prediction flag is set, the final phase of \<open>train\<close> returns
  identifiers and predictions of equal length, aligned by position, in which every
  identifier of the prediction index set occurs exactly once.  In mini-batch mode this
  needs what the sampler and the model promise: the prediction loader yields at least
  one batch, the seed nodes of its batches are the prediction index set, each node once,
  and the model returns one row for each seed node; the pairs of identifier and
  prediction are then those of the batches, in the order the batches were yielded.  In
  full-batch mode the model returns one row for each node of the category, and the
  identifiers are the whole range \<open>0, ..., num_nodes - 1\<close>.
\<close>

theorem prediction_aligned:
  assumes "prediction_flag (hargs h)" and "pred_idx h = Some pidx"
    and "use_mini h \<Longrightarrow>
           \<exists>ld bs r. pred_loader h = Some ld \<and> ld (rng h) = (bs, r) \<and> bs \<noteq> [] \<and>
             (\<forall>x. count_list (concat (map seeds bs)) x = (if x \<in> set pidx then 1 else 0)) \<and>
             (\<forall>b \<in> set bs. length (forward_eval ops (model h) (Sampled b)) = length (seeds b))"
    and "\<not> use_mini h \<Longrightarrow>
           length (forward_eval ops (model h) Whole) = num_nodes h \<and>
           set pidx \<subseteq> {..<num_nodes h}"
  shows "\<exists>ind yp h'. finish ops h last_epoch = Inr (Predictions ind yp, h') \<and>
           length ind = length yp \<and>
           (\<forall>x \<in> set pidx. count_list ind x = 1) \<and>
           (if use_mini h
            then \<exists>ld. pred_loader h = Some ld \<and>
                   zip ind yp =
                     concat (map (\<lambda>b. zip (seeds b) (forward_eval ops (model h) (Sampled b)))
                       (fst (ld (rng h))))
            else ind = [0..<num_nodes h] \<and> yp = forward_eval ops (model h) Whole)"
proof (cases "use_mini h")
  case True
  from assms(3) [OF True] obtain ld bs r where
    ld: "pred_loader h = Some ld" and draw: "ld (rng h) = (bs, r)" and ne: "bs \<noteq> []"
    and part: "\<forall>x. count_list (concat (map seeds bs)) x = (if x \<in> set pidx then 1 else 0)"
    and rows: "\<forall>b \<in> set bs. length (forward_eval ops (model h) (Sampled b)) = length (seeds b)"
    by blast
  define ind where "ind = concat (map seeds bs)"
  define yp where "yp = concat (map (\<lambda>b. forward_eval ops (model h) (Sampled b)) bs)"
  have "mini_prediction_step ops h = Inr ((ind, yp), h\<lparr>training := False, rng := r\<rparr>)"
    using ld draw ne
    by (simp add: mini_prediction_step_def mini_prediction_batches_run torch_cat_def
        ind_def yp_def)
  then have "finish ops h last_epoch = Inr (Predictions ind yp, h\<lparr>training := False, rng := r\<rparr>)"
    using assms(1) True by (simp add: finish_def)
  moreover have "length ind = length yp"
    unfolding ind_def yp_def using rows by (rule length_concat_batches)
  moreover have "\<forall>x \<in> set pidx. count_list ind x = 1"
    using part by (simp add: ind_def)
  moreover have "zip ind yp =
      concat (map (\<lambda>b. zip (seeds b) (forward_eval ops (model h) (Sampled b))) (fst (ld (rng h))))"
    unfolding ind_def yp_def draw fst_conv using rows by (rule zip_concat_batches)
  ultimately show ?thesis using True ld by auto
next
  case False
  from assms(4) [OF False] have len: "length (forward_eval ops (model h) Whole) = num_nodes h"
    and sub: "set pidx \<subseteq> {..<num_nodes h}"
    by simp_all
  have "finish ops h last_epoch =
      Inr (Predictions [0..<num_nodes h] (forward_eval ops (model h) Whole),
           h\<lparr>training := False\<rparr>)"
    using assms(1) False by (simp add: finish_def full_prediction_step_def Let_def)
  moreover have "\<forall>x \<in> set pidx. count_list [0..<num_nodes h] x = 1"
    using sub by (auto simp: count_list_upt)
  ultimately show ?thesis using False len by auto
qed

text \<open>The instance, in mini-batch mode and in full-batch mode.\<close>

theorem prediction_aligned_witness:
  "(\<exists>ind yp h'. finish toy_ops (toy_han (toy_args True False True) 1 1) None =
        Inr (Predictions ind yp, h') \<and> length ind = length yp \<and> count_list ind 4 = 1) \<and>
   (\<exists>ind yp h'. finish toy_ops (toy_han (toy_args False False True) 1 1) None =
        Inr (Predictions ind yp, h') \<and> length ind = length yp \<and> count_list ind 4 = 1 \<and>
        ind = [0, 1, 2, 3, 4])"
proof -
  let ?hm = "toy_han (toy_args True False True) 1 1"
  let ?hf = "toy_han (toy_args False False True) 1 1"
  have um: "use_mini ?hm" and uf: "\<not> use_mini ?hf"
    by (simp_all add: use_mini_def toy_han_def toy_args_def)
  have pm: "prediction_flag (hargs ?hm)" and pf: "prediction_flag (hargs ?hf)"
    by (simp_all add: toy_han_def toy_args_def)
  have im: "pred_idx ?hm = Some [4]" and "pred_idx ?hf = Some [4]"
    by (simp_all add: toy_han_def)
  have m: "\<exists>ld bs r. pred_loader ?hm = Some ld \<and> ld (rng ?hm) = (bs, r) \<and> bs \<noteq> [] \<and>
             (\<forall>x. count_list (concat (map seeds bs)) x = (if x \<in> set [4] then 1 else 0)) \<and>
             (\<forall>b \<in> set bs. length (forward_eval toy_ops (model ?hm) (Sampled b)) = length (seeds b))"
    by (rule exI [of _ "toy_loader [4]"], rule exI [of _ "[\<lparr>seeds = [4], block = 0\<rparr>]"],
        rule exI [of _ "Suc 0"])
      (simp add: toy_han_def toy_args_def toy_loader_def toy_ops_def toy_forward_def)
  have f: "length (forward_eval toy_ops (model ?hf) Whole) = num_nodes ?hf \<and>
           set [4] \<subseteq> {..<num_nodes ?hf}"
    by (simp add: toy_han_def toy_ops_def toy_forward_def)
  have fm: "length (forward_eval toy_ops (model ?hm) Whole) = num_nodes ?hm \<and>
           set [4] \<subseteq> {..<num_nodes ?hm}"
    by (simp add: toy_han_def toy_ops_def toy_forward_def)
  from prediction_aligned [of ?hm "[4]" toy_ops None, OF pm im m fm]
  obtain ind yp h' where
    "finish toy_ops ?hm None = Inr (Predictions ind yp, h')" "length ind = length yp"
    "\<forall>x \<in> set [4]. count_list ind x = 1"
    by (elim exE conjE)
  then have A: "\<exists>ind yp h'. finish toy_ops ?hm None = Inr (Predictions ind yp, h') \<and>
             length ind = length yp \<and> count_list ind 4 = 1"
    by (intro exI [of _ ind] exI [of _ yp] exI [of _ h']) simp
  have nn: "[0..<num_nodes ?hf] = [0, 1, 2, 3, 4]"
    by (simp add: toy_han_def upt_rec)
  note R = prediction_aligned [of ?hf "[4]" toy_ops None, OF pf \<open>pred_idx ?hf = Some [4]\<close> _ f]
  have "\<exists>ind yp h'. finish toy_ops ?hf None = Inr (Predictions ind yp, h') \<and>
           length ind = length yp \<and> (\<forall>x \<in> set [4]. count_list ind x = 1) \<and>
           (if use_mini ?hf
            then \<exists>ld. pred_loader ?hf = Some ld \<and>
                   zip ind yp =
                     concat (map (\<lambda>b. zip (seeds b) (forward_eval toy_ops (model ?hf) (Sampled b)))
                       (fst (ld (rng ?hf))))
            else ind = [0..<num_nodes ?hf] \<and> yp = forward_eval toy_ops (model ?hf) Whole)"
    by (rule R) (erule notE [OF uf])
  then obtain ind2 yp2 h2 where
    "finish toy_ops ?hf None = Inr (Predictions ind2 yp2, h2)" "length ind2 = length yp2"
    "\<forall>x \<in> set [4]. count_list ind2 x = 1"
    "if use_mini ?hf
     then \<exists>ld. pred_loader ?hf = Some ld \<and>
            zip ind2 yp2 =
              concat (map (\<lambda>b. zip (seeds b) (forward_eval toy_ops (model ?hf) (Sampled b)))
                (fst (ld (rng ?hf))))
     else ind2 = [0..<num_nodes ?hf] \<and> yp2 = forward_eval toy_ops (model ?hf) Whole"
    by (elim exE conjE)
  then have B: "\<exists>ind yp h'. finish toy_ops ?hf None = Inr (Predictions ind yp, h') \<and>
             length ind = length yp \<and> count_list ind 4 = 1 \<and> ind = [0, 1, 2, 3, 4]"
    using uf nn by (intro exI [of _ ind2] exI [of _ yp2] exI [of _ h2]) simp
  from A B show ?thesis ..
qed

subsection \<open>Construction\<close>

text \<open>
  Claim C9.  When the configured \<open>out_dim\<close> differs from the number of classes of the
  dataset, the constructor logs the message of line 35 and builds the model from
  arguments whose \<open>out_dim\<close> is the number of classes.  The mismatch never makes the
  constructor fail: the only failure is that of a prediction run whose dataset has no
  prediction indices.
\<close>

theorem init_out_dim_mismatch:
  assumes "out_dim a \<noteq> ds_num_classes su"
  shows "(\<exists>h. init ops a su = Inr h \<and> trace h = [Info modify_out_dim_msg] \<and>
            hargs h = a\<lparr>category := ds_category su, out_dim := ds_num_classes su,
                        out_node_type := [ds_category su]\<rparr> \<and>
            model h = build_model_from_args ops (hargs h)) \<or>
         (init ops a su = Inl AttributeError \<and> prediction_flag a \<and> ds_pred_idx su = None)"
proof -
  have fx: "fix_out_dim su (a\<lparr>category := ds_category su\<rparr>) =
      ([modify_out_dim_msg], a\<lparr>category := ds_category su, out_dim := ds_num_classes su\<rparr>)"
    using assms by (simp add: fix_out_dim_def)
  obtain tr va te where sp: "ds_split su = (tr, va, te)" by (cases "ds_split su")
  show ?thesis
  proof (cases "prediction_flag a \<and> ds_pred_idx su = None")
    case True
    then show ?thesis by (simp add: init_def fx sp Let_def)
  next
    case False
    then show ?thesis
      by (auto simp: init_def fx sp Let_def split: option.splits)
  qed
qed

theorem init_out_dim_mismatch_witness:
  "out_dim (toy_args False False False) \<noteq> ds_num_classes toy_setup \<and>
   (\<exists>h. init toy_ops (toy_args False False False) toy_setup = Inr h \<and>
      trace h = [Info modify_out_dim_msg] \<and> out_dim (hargs h) = 3 \<and> model h = 3)"
proof -
  have ne: "out_dim (toy_args False False False) \<noteq> ds_num_classes (toy_setup)"
    by (simp add: toy_args_def toy_setup_def)
  have np: "\<not> prediction_flag (toy_args False False False)"
    by (simp add: toy_args_def)
  from init_out_dim_mismatch [OF ne, of toy_ops]
  have "\<exists>h. init toy_ops (toy_args False False False) toy_setup = Inr h \<and>
      trace h = [Info modify_out_dim_msg] \<and>
      hargs h = (toy_args False False False)\<lparr>category := ds_category toy_setup,
           out_dim := ds_num_classes toy_setup, out_node_type := [ds_category toy_setup]\<rparr> \<and>
      model h = build_model_from_args toy_ops (hargs h)"
  proof (rule disjE)
    assume "init toy_ops (toy_args False False False) toy_setup = Inl AttributeError \<and>
      prediction_flag (toy_args False False False) \<and> ds_pred_idx toy_setup = None"
    then have "prediction_flag (toy_args False False False)" by (elim conjE)
    with np show ?thesis by (rule notE)
  qed
  then obtain h where "init toy_ops (toy_args False False False) toy_setup = Inr h"
    and "trace h = [Info modify_out_dim_msg]"
    and "hargs h = (toy_args False False False)\<lparr>category := ds_category toy_setup,
           out_dim := ds_num_classes toy_setup, out_node_type := [ds_category toy_setup]\<rparr>"
    and "model h = build_model_from_args toy_ops (hargs h)"
    by (elim exE conjE)
  then show ?thesis using ne
    by (intro conjI exI [of _ h]) (simp_all add: toy_setup_def toy_ops_def)
qed

subsection \<open>The states of a run\<close>

lemma evolve_fields [simp]:
  "model (evolve h m opt r t evs) = m"
  "optimizer (evolve h m opt r t evs) = opt"
  "rng (evolve h m opt r t evs) = r"
  "training (evolve h m opt r t evs) = t"
  "trace (evolve h m opt r t evs) = trace h @ evs"
  "hargs (evolve h m opt r t evs) = hargs h"
  "checkpoint (evolve h m opt r t evs) = checkpoint h"
  "max_epoch (evolve h m opt r t evs) = max_epoch h"
  "evaluate_interval (evolve h m opt r t evs) = evaluate_interval h"
  "num_nodes (evolve h m opt r t evs) = num_nodes h"
  "labels (evolve h m opt r t evs) = labels h"
  "train_idx (evolve h m opt r t evs) = train_idx h"
  "valid_idx (evolve h m opt r t evs) = valid_idx h"
  "test_idx (evolve h m opt r t evs) = test_idx h"
  "pred_idx (evolve h m opt r t evs) = pred_idx h"
  "train_loader (evolve h m opt r t evs) = train_loader h"
  "val_loader (evolve h m opt r t evs) = val_loader h"
  "test_loader (evolve h m opt r t evs) = test_loader h"
  "pred_loader (evolve h m opt r t evs) = pred_loader h"
  by (simp_all add: evolve_def)

lemma evolve_evolve [simp]:
  "evolve (evolve h m opt r t evs) m' opt' r' t' evs' = evolve h m' opt' r' t' (evs @ evs')"
  by (simp add: evolve_def)

lemma emit_evolve [simp]:
  "emit ev (evolve h m opt r t evs) = evolve h m opt r t (evs @ [ev])"
  by (simp add: evolve_def emit_def)

lemma evolve_self: "h = evolve h (model h) (optimizer h) (rng h) (training h) []"
  by (simp add: evolve_def)

lemma use_mini_evolve [simp]: "use_mini (evolve h m opt r t evs) = use_mini h"
  by (simp add: use_mini_def)

lemma mini_train_batches_state:
  "mini_train_batches ops h acc i xs = Inr (h', acc', i') \<Longrightarrow>
   \<exists>m opt r ls. h' = evolve h m opt r (training h) (map OptimStep ls)"
proof (induction xs arbitrary: h acc i)
  case Nil
  then have "h' = evolve h (model h) (optimizer h) (rng h) (training h) (map OptimStep [])"
    by (simp add: evolve_def)
  then show ?case by blast
next
  case (Cons x xs)
  obtain k b where x: "x = (k, b)" by (cases x)
  obtain logits r where f: "forward_train ops (model h) (rng h) (Sampled b) = (logits, r)"
    by (cases "forward_train ops (model h) (rng h) (Sampled b)")
  obtain m opt where g: "optim_step ops (model h) (optimizer h) (rng h) (Sampled b) = (m, opt)"
    by (cases "optim_step ops (model h) (optimizer h) (rng h) (Sampled b)")
  from Cons.prems obtain lbl where lbl: "index_select (labels h) (seeds b) = Inr lbl"
    by (auto simp: x split: sum.splits)
  define l where "l = loss_fn ops logits lbl"
  define h1 where "h1 = emit (OptimStep l) (h\<lparr>model := m, optimizer := opt, rng := r\<rparr>)"
  have h1: "h1 = evolve h m opt r (training h) [OptimStep l]"
    by (simp add: h1_def evolve_def emit_def)
  from Cons.prems have
    "mini_train_batches ops h1 (float_add ops acc l) (Some k) xs = Inr (h', acc', i')"
    by (simp add: x lbl f g l_def h1_def Let_def)
  from Cons.IH [OF this] obtain m' opt' r' ls where
    "h' = evolve h1 m' opt' r' (training h1) (map OptimStep ls)"
    by blast
  then have "h' = evolve h m' opt' r' (training h) (map OptimStep (l # ls))"
    by (simp add: h1)
  then show ?case by blast
qed

lemma mini_train_step_state:
  assumes "mini_train_step ops h = Inr (v, h')"
  shows "\<exists>m opt r ls. h' = evolve h m opt r True (map OptimStep ls)"
proof -
  from assms obtain ld where ld: "train_loader h = Some ld"
    by (auto simp: mini_train_step_def Let_def split: option.splits)
  obtain bs r where draw: "ld (rng h) = (bs, r)" by (cases "ld (rng h)")
  define h1 where "h1 = h\<lparr>training := True, rng := r\<rparr>"
  from assms ld draw obtain acc i where
    "mini_train_batches ops h1 0 None (enumerate 0 bs) = Inr (h', acc, i)"
    by (auto simp: mini_train_step_def Let_def h1_def split: sum.splits option.splits)
  from mini_train_batches_state [OF this] obtain m opt r' ls where
    "h' = evolve h1 m opt r' (training h1) (map OptimStep ls)"
    by blast
  then have "h' = evolve h m opt r' True (map OptimStep ls)"
    by (simp add: h1_def evolve_def)
  then show ?thesis by blast
qed

lemma full_train_step_state:
  assumes "full_train_step ops h = Inr (v, h')"
  shows "\<exists>m opt r. h' = evolve h m opt r True [OptimStep v]"
proof -
  obtain logits r where f: "forward_train ops (model h) (rng h) Whole = (logits, r)"
    by (cases "forward_train ops (model h) (rng h) Whole")
  obtain m opt where g: "optim_step ops (model h) (optimizer h) (rng h) Whole = (m, opt)"
    by (cases "optim_step ops (model h) (optimizer h) (rng h) Whole")
  from assms have "h' = evolve h m opt r True [OptimStep v]"
    by (auto simp: full_train_step_def Let_def f g evolve_def emit_def split: sum.splits)
  then show ?thesis by blast
qed

lemma test_step_state:
  assumes "test_step ops h modes = Inr (res, h')"
  shows "\<exists>r. h' = evolve h (model h) (optimizer h) r False []"
proof (cases "use_mini h")
  case True
  obtain md ld where res: "res = (md, ld)" by (cases res)
  from assms True have "mini_test_step ops h modes = Inr ((md, ld), h')"
    by (simp add: test_step_def res)
  from mini_test_step_Inr [OF this] obtain r' where "h' = h\<lparr>training := False, rng := r'\<rparr>"
    by blast
  then have "h' = evolve h (model h) (optimizer h) r' False []"
    by (simp add: evolve_def)
  then show ?thesis ..
next
  case False
  with assms have "full_test_step ops h modes = Inr (res, h')"
    by (simp add: test_step_def)
  then have "h' = h\<lparr>training := False\<rparr>" by (rule full_test_step_state)
  then have "h' = evolve h (model h) (optimizer h) (rng h) False []"
    by (simp add: evolve_def)
  then show ?thesis ..
qed

subsection \<open>The stopper\<close>

lemma loss_step_stopped: "fst (loss_step v m s) = stopped (snd (loss_step v m s))"
  by (simp add: loss_step_def Let_def)

lemma replay_simps [simp]:
  "replay s [] = s"
  "replay s (obs @ [(v, m)]) = snd (loss_step v m (replay s obs))"
  "replay s ((v, m) # obs) = replay (snd (loss_step v m s)) obs"
  by (simp_all add: replay_def)

lemma replay_append: "replay s (xs @ ys) = replay (replay s xs) ys"
  by (simp add: replay_def)

lemma replay_best:
  "obs \<noteq> [] \<Longrightarrow>
   \<exists>i < length obs.
     saved_model_blob (replay (EarlyStopping p path) obs) = Some (snd (obs ! i)) \<and>
     best_loss (replay (EarlyStopping p path) obs) = Some (fst (obs ! i)) \<and>
     (\<forall>j < length obs. fst (obs ! i) \<le> fst (obs ! j)) \<and>
     (\<forall>j < i. fst (obs ! i) < fst (obs ! j))"
proof (induction obs rule: rev_induct)
  case Nil
  then show ?case by simp
next
  case (snoc x obs)
  obtain v m where x: "x = (v, m)" by (cases x)
  let ?s = "replay (EarlyStopping p path) obs"
  show ?case
  proof (cases "obs = []")
    case True
    then show ?thesis
      by (simp add: x loss_step_def improves_def EarlyStopping_def)
  next
    case False
    from snoc.IH [OF False] obtain i where i: "i < length obs"
      and sv: "saved_model_blob ?s = Some (snd (obs ! i))"
      and bl: "best_loss ?s = Some (fst (obs ! i))"
      and mn: "\<forall>j < length obs. fst (obs ! i) \<le> fst (obs ! j)"
      and fs: "\<forall>j < i. fst (obs ! i) < fst (obs ! j)"
      by blast
    show ?thesis
    proof (cases "v < fst (obs ! i)")
      case True
      have "\<forall>j < length obs. v < fst (obs ! j)"
        using True mn by force
      then have "\<forall>j < length obs. fst ((obs @ [x]) ! length obs) < fst ((obs @ [x]) ! j)"
        by (simp add: x nth_append)
      moreover have "saved_model_blob (replay (EarlyStopping p path) (obs @ [x])) =
          Some (snd ((obs @ [x]) ! length obs))"
        and "best_loss (replay (EarlyStopping p path) (obs @ [x])) =
          Some (fst ((obs @ [x]) ! length obs))"
        using True bl by (simp_all add: x loss_step_def improves_def)
      ultimately show ?thesis
        by (intro exI [of _ "length obs"]) (auto simp: less_Suc_eq less_imp_le)
    next
      case False
      have "saved_model_blob (replay (EarlyStopping p path) (obs @ [x])) = Some (snd ((obs @ [x]) ! i))"
        and "best_loss (replay (EarlyStopping p path) (obs @ [x])) = Some (fst ((obs @ [x]) ! i))"
        using False bl sv i by (simp_all add: x loss_step_def improves_def Let_def nth_append)
      moreover have "\<forall>j < length (obs @ [x]). fst ((obs @ [x]) ! i) \<le> fst ((obs @ [x]) ! j)"
        using False mn i by (auto simp: x nth_append less_Suc_eq)
      moreover have "\<forall>j < i. fst ((obs @ [x]) ! i) < fst ((obs @ [x]) ! j)"
        using fs i by (simp add: nth_append)
      ultimately show ?thesis using i
        by (intro exI [of _ i]) simp
    qed
  qed
qed

lemma loss_step_save_path [simp]: "save_path (snd (loss_step v m s)) = save_path s"
  by (simp add: loss_step_def Let_def)

lemma replay_save_path [simp]: "save_path (replay s obs) = save_path s"
  by (induction obs arbitrary: s) auto

subsection \<open>The epoch loop\<close>

lemma list_all_is_update_map [simp]: "list_all is_update (map OptimStep ls)"
  by (induction ls) simp_all

lemma update_is_loop_event: "list_all is_update ups \<Longrightarrow> list_all is_loop_event ups"
proof (induction ups)
  case Nil
  then show ?case by simp
next
  case (Cons ev ups)
  then show ?case by (cases ev) simp_all
qed

lemma ticks_append [simp]: "ticks (xs @ ys) = ticks xs @ ticks ys"
  by (induction xs rule: ticks.induct) simp_all

lemma consulted_append [simp]: "consulted (xs @ ys) = consulted xs @ consulted ys"
  by (induction xs rule: consulted.induct) simp_all

lemma observations_append [simp]:
  "observations (xs @ ys) = observations xs @ observations ys"
  by (induction xs rule: observations.induct) simp_all

lemma updates_silent:
  "list_all is_update ups \<Longrightarrow> ticks ups = [] \<and> consulted ups = [] \<and> observations ups = []"
proof (induction ups)
  case Nil
  then show ?case by simp
next
  case (Cons ev ups)
  then show ?case by (cases ev) simp_all
qed

lemma consults_at_boundary_updates:
  "list_all is_update ups \<Longrightarrow> consults_at_boundary (ups @ evs) = consults_at_boundary evs"
proof (induction ups)
  case Nil
  then show ?case by simp
next
  case (Cons ev ups)
  then show ?case by (cases ev) simp_all
qed

text \<open>The events of one epoch.\<close>

lemma epoch_body_events:
  assumes "epoch_body ops (emit (EpochTick e) h) stp e = Inr (h', stp', brk)"
  shows "\<exists>m opt r t ups tail.
           h' = evolve h m opt r t (EpochTick e # ups @ tail) \<and> list_all is_update ups \<and>
           evaluate_interval h \<noteq> 0 \<and>
           (if int e mod evaluate_interval h = 0
            then \<exists>tl vl. tail = [TrainInfo e tl vl, LossStep e vl m] @
                                 (if brk then [EarlyStopInfo e] else []) \<and>
                   (brk, stp') = loss_step vl m stp
            else tail = [] \<and> stp' = stp \<and> \<not> brk)"
proof -
  define h0 where "h0 = emit (EpochTick e) h"
  have h0: "h0 = evolve h (model h) (optimizer h) (rng h) (training h) [EpochTick e]"
    by (simp add: h0_def evolve_def emit_def)
  from assms obtain train_loss h1 where
    tr: "(if mini_batch_flag (hargs h0) then mini_train_step ops h0
          else full_train_step ops h0) = Inr (train_loss, h1)"
    by (auto simp: epoch_body_def h0_def [symmetric] split: sum.splits)
  have "\<exists>m opt r ups. h1 = evolve h0 m opt r True ups \<and> list_all is_update ups"
  proof (cases "mini_batch_flag (hargs h0)")
    case True
    with tr have "mini_train_step ops h0 = Inr (train_loss, h1)" by simp
    from mini_train_step_state [OF this] show ?thesis
      by (metis list_all_is_update_map)
  next
    case False
    with tr have "full_train_step ops h0 = Inr (train_loss, h1)" by simp
    from full_train_step_state [OF this] obtain m opt r where
      "h1 = evolve h0 m opt r True (map OptimStep [train_loss])"
      by auto
    then show ?thesis by (metis list_all_is_update_map)
  qed
  then obtain m opt r ups where h1': "h1 = evolve h0 m opt r True ups"
    and ups: "list_all is_update ups"
    by blast
  have h1: "h1 = evolve h m opt r True (EpochTick e # ups)"
    by (simp add: h1' h0)
  from assms tr have k: "evaluate_interval h \<noteq> 0"
    by (auto simp: epoch_body_def h0_def [symmetric] h1 split: if_splits)
  show ?thesis
  proof (cases "int e mod evaluate_interval h = 0")
    case False
    with assms tr k have "h' = h1" "stp' = stp" "\<not> brk"
      by (auto simp: epoch_body_def h0_def [symmetric] h1)
    then have "h' = evolve h m opt r True (EpochTick e # ups @ [])"
      by (simp add: h1)
    with ups k False \<open>stp' = stp\<close> \<open>\<not> brk\<close> show ?thesis
      by (intro exI [of _ m] exI [of _ opt] exI [of _ r] exI [of _ True] exI [of _ ups]
          exI [of _ "[]"]) simp
  next
    case True
    define modes where
      "modes = [''train'', ''valid''] @ (if test_flag (hargs h1) then [''test''] else [])"
    from assms tr k True obtain metric_dict losses h2 val_loss where
      ts: "test_step ops h1 modes = Inr ((metric_dict, losses), h2)"
      and vl: "map_of losses ''valid'' = Some val_loss"
      by (auto simp: epoch_body_def h0_def [symmetric] h1 modes_def Let_def
          split: sum.splits option.splits)
    from test_step_state [OF ts] obtain r2 where
      "h2 = evolve h1 (model h1) (optimizer h1) r2 False []"
      by blast
    then have h2: "h2 = evolve h m opt r2 False (EpochTick e # ups)"
      by (simp add: h1)
    obtain es s' where ls: "loss_step val_loss m stp = (es, s')"
      by (cases "loss_step val_loss m stp")
    from assms tr k True ts vl ls have res:
      "brk = es" "stp' = s'"
      "h' = evolve h m opt r2 False
              (EpochTick e # ups @ [TrainInfo e train_loss val_loss, LossStep e val_loss m] @
                 (if brk then [EarlyStopInfo e] else []))"
      by (auto simp: epoch_body_def h0_def [symmetric] h1 modes_def h2 Let_def
          split: if_splits)
    have "(brk, stp') = loss_step val_loss m stp"
      by (simp add: res ls)
    with res(3) ups k True show ?thesis
      by (intro exI [of _ m] exI [of _ opt] exI [of _ r2] exI [of _ False] exI [of _ ups]
          exI [of _ "[TrainInfo e train_loss val_loss, LossStep e val_loss m] @
                 (if brk then [EarlyStopInfo e] else [])"]) auto
  qed
qed

lemma epoch_body_summary:
  assumes "epoch_body ops (emit (EpochTick e) h) stp e = Inr (h', stp', brk)"
  shows "\<exists>m opt r t seg.
           h' = evolve h m opt r t (EpochTick e # seg) \<and> list_all is_loop_event seg \<and>
           ticks seg = [] \<and>
           consulted seg = (if int e mod evaluate_interval h = 0 then [e] else []) \<and>
           stp' = replay stp (observations seg) \<and> (brk \<longrightarrow> stopped stp') \<and>
           evaluate_interval h \<noteq> 0 \<and>
           (\<forall>rest. (rest = [] \<or> (\<exists>e' t. rest = EpochTick e' # t)) \<longrightarrow> (brk \<longrightarrow> rest = []) \<longrightarrow>
              consults_at_boundary (seg @ rest) = consults_at_boundary rest)"
proof -
  from epoch_body_events [OF assms] obtain m opt r t ups tail where
    h': "h' = evolve h m opt r t (EpochTick e # ups @ tail)" and ups: "list_all is_update ups"
    and k: "evaluate_interval h \<noteq> 0"
    and tail: "if int e mod evaluate_interval h = 0
            then \<exists>tl vl. tail = [TrainInfo e tl vl, LossStep e vl m] @
                                 (if brk then [EarlyStopInfo e] else []) \<and>
                   (brk, stp') = loss_step vl m stp
            else tail = [] \<and> stp' = stp \<and> \<not> brk"
    by blast
  note silent = updates_silent [OF ups] update_is_loop_event [OF ups]
    consults_at_boundary_updates [OF ups]
  show ?thesis
  proof (cases "int e mod evaluate_interval h = 0")
    case False
    with tail have "tail = []" "stp' = stp" "\<not> brk" by simp_all
    with h' k False silent show ?thesis
      by (intro exI [of _ m] exI [of _ opt] exI [of _ r] exI [of _ t] exI [of _ ups]) simp
  next
    case True
    with tail obtain tl vl where
      t: "tail = [TrainInfo e tl vl, LossStep e vl m] @ (if brk then [EarlyStopInfo e] else [])"
      and ls: "(brk, stp') = loss_step vl m stp"
      by auto
    from ls have stp': "stp' = snd (loss_step vl m stp)" and brk: "brk = fst (loss_step vl m stp)"
      by (simp_all add: ls [symmetric])
    have st: "brk \<longrightarrow> stopped stp'"
      using loss_step_stopped [of vl m stp] by (simp add: stp' brk)
    have cb: "consults_at_boundary (tail @ rest) = consults_at_boundary rest"
      if "rest = [] \<or> (\<exists>e' t. rest = EpochTick e' # t)" and "brk \<longrightarrow> rest = []" for rest
      using that by (auto simp: t)
    show ?thesis
      using h' k True silent st cb
      by (intro exI [of _ m] exI [of _ opt] exI [of _ r] exI [of _ t] exI [of _ "ups @ tail"])
        (simp add: t stp')
  qed
qed

lemma epoch_loop_events:
  assumes "epoch_loop ops h stp last_epoch es = Inr (h', stp', last')"
  shows "\<exists>m opt r t evs n.
      h' = evolve h m opt r t evs \<and> list_all is_loop_event evs \<and>
      n \<le> length es \<and> ticks evs = take n es \<and>
      last' = (if n = 0 then last_epoch else Some (es ! (n - 1))) \<and>
      consulted evs = filter (\<lambda>e. int e mod evaluate_interval h = 0) (take n es) \<and>
      stp' = replay stp (observations evs) \<and>
      (n < length es \<longrightarrow> stopped stp') \<and>
      consults_at_boundary evs \<and> (evs = [] \<or> (\<exists>e t. evs = EpochTick e # t))"
  using assms
proof (induction es arbitrary: h stp last_epoch)
  case Nil
  then have "h' = evolve h (model h) (optimizer h) (rng h) (training h) []"
    and "stp' = stp" and "last' = last_epoch"
    by (simp_all add: evolve_def)
  then show ?case
    by (intro exI [of _ "model h"] exI [of _ "optimizer h"] exI [of _ "rng h"]
        exI [of _ "training h"] exI [of _ "[]"] exI [of _ 0]) simp
next
  case (Cons epoch rest)
  from Cons.prems obtain h1 stp1 brk where
    body: "epoch_body ops (emit (EpochTick epoch) h) stp epoch = Inr (h1, stp1, brk)"
    by (auto split: sum.splits)
  from epoch_body_summary [OF body] obtain m opt r t seg where
    h1: "h1 = evolve h m opt r t (EpochTick epoch # seg)"
    and le: "list_all is_loop_event seg" and tk: "ticks seg = []"
    and co: "consulted seg = (if int epoch mod evaluate_interval h = 0 then [epoch] else [])"
    and rp: "stp1 = replay stp (observations seg)" and st: "brk \<longrightarrow> stopped stp1"
    and cb: "\<And>rest. rest = [] \<or> (\<exists>e' t. rest = EpochTick e' # t) \<Longrightarrow> (brk \<longrightarrow> rest = []) \<Longrightarrow>
              consults_at_boundary (seg @ rest) = consults_at_boundary rest"
    by blast
  show ?case
  proof (cases brk)
    case True
    with Cons.prems body have "h' = h1" "stp' = stp1" "last' = Some epoch"
      by simp_all
    with h1 le tk co rp st True cb [of "[]"] show ?thesis
      by (intro exI [of _ m] exI [of _ opt] exI [of _ r] exI [of _ t]
          exI [of _ "EpochTick epoch # seg"] exI [of _ 1]) simp
  next
    case False
    with Cons.prems body have "epoch_loop ops h1 stp1 (Some epoch) rest = Inr (h', stp', last')"
      by simp
    from Cons.IH [OF this] obtain m' opt' r' t' evs n where
      h': "h' = evolve h1 m' opt' r' t' evs" and le': "list_all is_loop_event evs"
      and n: "n \<le> length rest" and tk': "ticks evs = take n rest"
      and last': "last' = (if n = 0 then Some epoch else Some (rest ! (n - 1)))"
      and co': "consulted evs = filter (\<lambda>e. int e mod evaluate_interval h1 = 0) (take n rest)"
      and rp': "stp' = replay stp1 (observations evs)"
      and st': "n < length rest \<longrightarrow> stopped stp'"
      and cb': "consults_at_boundary evs" and hd: "evs = [] \<or> (\<exists>e t. evs = EpochTick e # t)"
      by blast
    have "consults_at_boundary (seg @ evs)"
      using cb [OF hd] cb' False by simp
    moreover have "last' = Some ((epoch # rest) ! n)"
      using last' by (cases n) simp_all
    moreover have "stp' = replay stp (observations seg @ observations evs)"
      using rp rp' by (simp add: replay_append)
    ultimately show ?thesis
      using h' h1 le le' n tk tk' co co' st'
      by (intro exI [of _ m'] exI [of _ opt'] exI [of _ r'] exI [of _ t']
          exI [of _ "EpochTick epoch # seg @ evs"] exI [of _ "Suc n"]) simp
  qed
qed

subsection \<open>The final phase and the whole run\<close>

lemma evolve_training [simp]:
  "(evolve h m opt r t evs)\<lparr>training := t'\<rparr> = evolve h m opt r t' evs"
  by (simp add: evolve_def)

lemma final_not_loop: "is_final ev \<Longrightarrow> \<not> is_loop_event ev"
  by (cases ev) simp_all

lemma finals_not_loop: "list_all is_final post \<Longrightarrow> list_all (\<lambda>ev. \<not> is_loop_event ev) post"
  by (induction post) (simp_all add: final_not_loop)

lemma no_loop_no_consult:
  "list_all (\<lambda>ev. \<not> is_loop_event ev) post \<Longrightarrow> consults_at_boundary post"
proof (induction post)
  case Nil
  then show ?case by simp
next
  case (Cons ev post)
  then show ?case by (cases ev) simp_all
qed

lemma boundary_after_append:
  assumes "boundary_after e evs" and "list_all (\<lambda>ev. \<not> is_loop_event ev) post"
  shows "boundary_after e (evs @ LoadModel # post)"
proof (cases evs)
  case Nil
  then show ?thesis by simp
next
  case (Cons ev evs')
  with assms show ?thesis by (cases ev) simp_all
qed

lemma consults_at_boundary_append:
  assumes "list_all (\<lambda>ev. \<not> is_loop_event ev) post"
  shows "consults_at_boundary evs \<Longrightarrow> consults_at_boundary (evs @ LoadModel # post)"
proof (induction evs)
  case Nil
  then show ?case using no_loop_no_consult [OF assms] by simp
next
  case (Cons ev evs)
  then show ?case
    by (cases ev) (simp_all add: boundary_after_append [OF _ assms])
qed

lemma mini_prediction_step_state:
  assumes "mini_prediction_step ops h = Inr (res, h')"
  shows "\<exists>r. h' = evolve h (model h) (optimizer h) r False []"
proof -
  from assms obtain ld where ld: "pred_loader h = Some ld"
    by (auto simp: mini_prediction_step_def Let_def split: option.splits)
  obtain bs r where draw: "ld (rng h) = (bs, r)" by (cases "ld (rng h)")
  from assms ld draw have "h' = h\<lparr>training := False, rng := r\<rparr>"
    by (auto simp: mini_prediction_step_def Let_def split: prod.splits sum.splits)
  then have "h' = evolve h (model h) (optimizer h) r False []"
    by (simp add: evolve_def)
  then show ?thesis ..
qed

lemma finish_events:
  assumes "finish ops h last_epoch = Inr (res, h')"
  shows "\<exists>r t post.
           h' = evolve h (model h) (optimizer h) r t post \<and> list_all is_final post \<and>
           (\<forall>lg. SaveResults lg \<in> set post \<longrightarrow> lg = forward_eval ops (model h) Whole) \<and>
           (prediction_flag (hargs h) \<longrightarrow> post = [] \<and>
              (\<exists>ind yp. res = Predictions ind yp \<and>
                 (if use_mini h then mini_prediction_step ops h = Inr ((ind, yp), h')
                  else full_prediction_step ops h = (yp, h') \<and> ind = [0..<num_nodes h])))"
proof (cases "prediction_flag (hargs h)")
  case True
  show ?thesis
  proof (cases "use_mini h")
    case mini: True
    from assms True mini obtain ind yp where
      ps: "mini_prediction_step ops h = Inr ((ind, yp), h')" and res: "res = Predictions ind yp"
      by (auto simp: finish_def split: sum.splits)
    from mini_prediction_step_state [OF ps] obtain r where
      "h' = evolve h (model h) (optimizer h) r False []" ..
    with ps res True mini show ?thesis
      by (intro exI [of _ r] exI [of _ False] exI [of _ "[]"]) simp
  next
    case full: False
    from assms True full have
      "h' = h\<lparr>training := False\<rparr>" "res = Predictions [0..<num_nodes h] (forward_eval ops (model h) Whole)"
      by (auto simp: finish_def full_prediction_step_def Let_def)
    moreover from this have "h' = evolve h (model h) (optimizer h) (rng h) False []"
      by (simp add: evolve_def)
    ultimately show ?thesis using True full
      by (intro exI [of _ "rng h"] exI [of _ False] exI [of _ "[]"])
        (simp add: full_prediction_step_def Let_def)
  qed
next
  case False
  show ?thesis
  proof (cases "test_flag (hargs h)")
    case nt: False
    with assms False have "h' = h" by (simp add: finish_def)
    then have "h' = evolve h (model h) (optimizer h) (rng h) (training h) []"
      by (simp add: evolve_def)
    with False show ?thesis
      by (intro exI [of _ "rng h"] exI [of _ "training h"] exI [of _ "[]"]) simp
  next
    case True
    show ?thesis
    proof (cases "take 4 (dataset (hargs h)) = ''HGBn''")
      case hgb: True
      from assms False True hgb obtain md vl h1 where
        ts: "test_step ops h [''valid''] = Inr ((md, vl), h1)"
        by (auto simp: finish_def split: sum.splits)
      from test_step_state [OF ts] obtain r where
        h1: "h1 = evolve h (model h) (optimizer h) r False []" ..
      from assms False True hgb ts have
        "h' = evolve h (model h) (optimizer h) r False
                [TestInfo, SaveResults (forward_eval ops (model h) Whole)]"
        by (auto simp: finish_def h1 Let_def split: option.splits)
      with False show ?thesis
        by (intro exI [of _ r] exI [of _ False]
            exI [of _ "[TestInfo, SaveResults (forward_eval ops (model h) Whole)]"]) simp
    next
      case other: False
      from assms False True other obtain md vl h1 where
        ts: "test_step ops h [''valid'', ''test''] = Inr ((md, vl), h1)"
        by (auto simp: finish_def split: sum.splits)
      from test_step_state [OF ts] obtain r where
        h1: "h1 = evolve h (model h) (optimizer h) r False []" ..
      from assms False True other ts have
        "h' = evolve h (model h) (optimizer h) r False [TestInfo]"
        by (auto simp: finish_def h1 split: option.splits)
      with False show ?thesis
        by (intro exI [of _ r] exI [of _ False] exI [of _ "[TestInfo]"]) simp
    qed
  qed
qed

text \<open>
  The shape of every run of \<open>train\<close> that returns: the events of the loop, the
  restoring of the checkpoint, the events of the final phase.
\<close>

lemma train_events:
  assumes "train ops h = Inr (res, h')"
  shows "\<exists>evs post n h1 last_epoch.
      trace h' = trace h @ evs @ LoadModel # post \<and>
      list_all is_loop_event evs \<and> list_all is_final post \<and>
      n \<le> nat (max_epoch h) \<and> ticks evs = [0..<n] \<and>
      consulted evs = filter (\<lambda>e. int e mod evaluate_interval h = 0) [0..<n] \<and>
      (n < nat (max_epoch h) \<longrightarrow>
         stopped (replay (EarlyStopping (patience (hargs h)) (checkpoint h)) (observations evs))) \<and>
      consults_at_boundary evs \<and>
      (checkpoint h \<noteq> None \<longrightarrow>
         saved_model_blob
           (replay (EarlyStopping (patience (hargs h)) (checkpoint h)) (observations evs)) =
         Some (model h1)) \<and>
      model h' = model h1 \<and> trace h1 = trace h @ evs @ [LoadModel] \<and>
      hargs h1 = hargs h \<and> use_mini h1 = use_mini h \<and> num_nodes h1 = num_nodes h \<and>
      finish ops h1 last_epoch = Inr (res, h') \<and>
      (\<forall>lg. SaveResults lg \<in> set post \<longrightarrow> lg = forward_eval ops (model h1) Whole) \<and>
      (prediction_flag (hargs h) \<longrightarrow> post = [])"
proof -
  obtain m opt where pre: "base_preprocess ops (model h, optimizer h) = (m, opt)"
    by (cases "base_preprocess ops (model h, optimizer h)")
  define h0 where "h0 = h\<lparr>model := m, optimizer := opt\<rparr>"
  have h0: "h0 = evolve h m opt (rng h) (training h) []"
    by (simp add: h0_def evolve_def)
  from assms pre obtain hl stp last_epoch returned left where
    loop: "epoch_loop ops h0 (EarlyStopping (patience (hargs h)) (checkpoint h)) None
             [0..<nat (max_epoch h)] = Inr (hl, stp, last_epoch)"
    and lm: "load_model stp (model hl) = Inr (returned, left)"
    and fin: "finish ops (emit LoadModel (hl\<lparr>model := left\<rparr>)) last_epoch = Inr (res, h')"
    by (auto simp: train_def Let_def h0_def split: sum.splits)
  from epoch_loop_events [OF loop] obtain m1 opt1 r1 t1 evs n where
    hl: "hl = evolve h0 m1 opt1 r1 t1 evs" and le: "list_all is_loop_event evs"
    and n: "n \<le> length [0..<nat (max_epoch h)]"
    and tk: "ticks evs = take n [0..<nat (max_epoch h)]"
    and co: "consulted evs =
        filter (\<lambda>e. int e mod evaluate_interval h0 = 0) (take n [0..<nat (max_epoch h)])"
    and rp: "stp = replay (EarlyStopping (patience (hargs h)) (checkpoint h)) (observations evs)"
    and st: "n < length [0..<nat (max_epoch h)] \<longrightarrow> stopped stp"
    and cb: "consults_at_boundary evs"
    by blast
  have tn: "take n [0..<nat (max_epoch h)] = [0..<n]"
    using n by (simp add: take_upt)
  define h1 where "h1 = emit LoadModel (hl\<lparr>model := left\<rparr>)"
  have h1: "h1 = evolve h left opt1 r1 t1 (evs @ [LoadModel])"
    by (simp add: h1_def hl h0 evolve_def emit_def)
  from finish_events [OF fin [folded h1_def]] obtain r t post where
    h': "h' = evolve h1 (model h1) (optimizer h1) r t post" and fp: "list_all is_final post"
    and sv: "\<forall>lg. SaveResults lg \<in> set post \<longrightarrow> lg = forward_eval ops (model h1) Whole"
    and pf: "prediction_flag (hargs h1) \<longrightarrow> post = []"
    by blast
  have sp: "save_path stp = checkpoint h"
    by (simp add: rp EarlyStopping_def)
  from lm have saved: "checkpoint h \<noteq> None \<longrightarrow> saved_model_blob stp = Some left"
    by (auto simp: load_model_def sp split: option.splits)
  show ?thesis
    using h' h1 le fp n tn tk co rp st cb saved sv pf fin [folded h1_def]
    by (intro exI [of _ evs] exI [of _ post] exI [of _ n] exI [of _ h1]
        exI [of _ last_epoch]) (simp add: h0)
qed

lemma count_list_filter_upt:
  "count_list (filter P [0..<n]) e = (if e < n \<and> P e then 1 else 0)"
  by (induction n) auto

text \<open>
  Claim C3, as amended.  In every run of \<open>train\<close> that returns, the loop starts the
  epochs \<open>0, ..., n - 1\<close> for some \<open>n\<close> up to \<open>max_epoch\<close>, and consults the stopper exactly
  once in each of these epochs whose number is a multiple of \<open>evaluate_interval\<close>, and
  in no other epoch.  A consultation is the last call of its epoch: it is followed by
  the start of the next epoch, by the message of the early stop, or by the restoring of
  the checkpoint, never by an update of a batch.  The loop ends before \<open>max_epoch\<close> only
  when the stopper is STOPPED.
\<close>

theorem stopper_consulted_at_epoch_boundaries:
  assumes "train ops h = Inr (res, h')"
  shows "\<exists>evs post n.
      trace h' = trace h @ evs @ LoadModel # post \<and>
      list_all is_loop_event evs \<and> list_all is_final post \<and>
      n \<le> nat (max_epoch h) \<and> ticks evs = [0..<n] \<and>
      consulted evs = filter (\<lambda>e. int e mod evaluate_interval h = 0) [0..<n] \<and>
      (\<forall>e. count_list (consulted evs) e =
           (if e < n \<and> int e mod evaluate_interval h = 0 then 1 else 0)) \<and>
      consults_at_boundary (evs @ LoadModel # post) \<and>
      (n < nat (max_epoch h) \<longrightarrow>
         stopped (replay (EarlyStopping (patience (hargs h)) (checkpoint h)) (observations evs)))"
proof -
  from train_events [OF assms] obtain evs post n where
    tr: "trace h' = trace h @ evs @ LoadModel # post"
    and le: "list_all is_loop_event evs" and fp: "list_all is_final post"
    and n: "n \<le> nat (max_epoch h)" and tk: "ticks evs = [0..<n]"
    and co: "consulted evs = filter (\<lambda>e. int e mod evaluate_interval h = 0) [0..<n]"
    and st: "n < nat (max_epoch h) \<longrightarrow>
         stopped (replay (EarlyStopping (patience (hargs h)) (checkpoint h)) (observations evs))"
    and cb: "consults_at_boundary evs"
    by blast
  have "consults_at_boundary (evs @ LoadModel # post)"
    using finals_not_loop [OF fp] cb by (rule consults_at_boundary_append)
  moreover have "\<forall>e. count_list (consulted evs) e =
           (if e < n \<and> int e mod evaluate_interval h = 0 then 1 else 0)"
    unfolding co by (simp add: count_list_filter_upt)
  ultimately show ?thesis
    using tr le fp n tk co st by blast
qed

text \<open>
  A full-batch run of at most three epochs with \<open>evaluate_interval = 1\<close> and
  \<open>patience = 1\<close>, which stops early in its second epoch.
\<close>

theorem stopper_consulted_at_epoch_boundaries_witness:
  "\<exists>h'. train toy_ops (toy_han (toy_args False True False) 3 1) =
          Inr (Summary [(''valid'', 1), (''test'', 1)] 1, h') \<and>
     (\<exists>evs post n.
        trace h' = trace (toy_han (toy_args False True False) 3 1) @ evs @ LoadModel # post \<and>
        n \<le> 3 \<and> ticks evs = [0..<n] \<and> consults_at_boundary (evs @ LoadModel # post))"
proof -
  have "(case train toy_ops (toy_han (toy_args False True False) 3 1) of
           Inl e \<Rightarrow> None | Inr (res, h) \<Rightarrow> Some res) =
        Some (Summary [(''valid'', 1), (''test'', 1)] 1)"
    by code_simp
  then obtain h' where
    run: "train toy_ops (toy_han (toy_args False True False) 3 1) =
            Inr (Summary [(''valid'', 1), (''test'', 1)] 1, h')"
    by (auto split: sum.splits)
  have me: "nat (max_epoch (toy_han (toy_args False True False) 3 1)) = 3"
    by (simp add: toy_han_def)
  from stopper_consulted_at_epoch_boundaries [OF run] obtain evs post n where
    "trace h' = trace (toy_han (toy_args False True False) 3 1) @ evs @ LoadModel # post"
    "n \<le> nat (max_epoch (toy_han (toy_args False True False) 3 1))"
    "ticks evs = [0..<n]" "consults_at_boundary (evs @ LoadModel # post)"
    by (elim exE conjE)
  then show ?thesis unfolding me
    by (intro exI [of _ h'] conjI run exI [of _ evs] exI [of _ post] exI [of _ n])
qed

text \<open>
  Claim C3 as it stands fails: the stopper is consulted only in the epochs in which the
  model is evaluated.  With \<open>evaluate_interval = 2\<close> a run of two epochs starts the
  epochs 0 and 1 and consults the stopper in epoch 0 alone.
\<close>

theorem stopper_every_epoch_counterexample:
  "map_sum id (\<lambda>(res, h). (ticks (trace h), consulted (trace h)))
     (train toy_ops (toy_han (toy_args False False False) 2 2)) = Inr ([0, 1], [0])"
  by code_simp

text \<open>
  A run with a checkpoint path.  When \<open>_checkpoint\<close> is a path, the call
  \<open>stopper.load_model\<close> comes after all events of the loop and before every event of the
  final phase (the test report, the saving of results), and after it no update is made.
  The parameters it leaves in the model, which are those of the final state, are the
  parameters shown to the stopper together with the least validation loss, the first of
  them if the least loss was seen more than once.  The final phase (lines 102 to 129)
  starts from these parameters, and the saved results are the model's output under
  them.
\<close>

lemma checkpoint_file_restored:
  assumes "train ops h = Inr (res, h')" and "checkpoint h = Some path"
  shows "\<exists>evs post i h1 last_epoch.
      trace h' = trace h @ evs @ LoadModel # post \<and>
      list_all is_loop_event evs \<and> list_all is_final post \<and>
      i < length (observations evs) \<and> model h' = snd (observations evs ! i) \<and>
      (\<forall>j < length (observations evs). fst (observations evs ! i) \<le> fst (observations evs ! j)) \<and>
      (\<forall>j < i. fst (observations evs ! i) < fst (observations evs ! j)) \<and>
      model h1 = model h' \<and> trace h1 = trace h @ evs @ [LoadModel] \<and>
      finish ops h1 last_epoch = Inr (res, h') \<and>
      (\<forall>lg. SaveResults lg \<in> set post \<longrightarrow> lg = forward_eval ops (model h') Whole)"
proof -
  from train_events [OF assms(1)] assms(2) obtain evs post h1 last_epoch where
    tr: "trace h' = trace h @ evs @ LoadModel # post"
    and le: "list_all is_loop_event evs" and fp: "list_all is_final post"
    and saved: "saved_model_blob
        (replay (EarlyStopping (patience (hargs h)) (Some path)) (observations evs)) =
        Some (model h1)"
    and m': "model h' = model h1"
    and t1: "trace h1 = trace h @ evs @ [LoadModel]"
    and fin: "finish ops h1 last_epoch = Inr (res, h')"
    and sv: "\<forall>lg. SaveResults lg \<in> set post \<longrightarrow> lg = forward_eval ops (model h1) Whole"
    by auto
  have "observations evs \<noteq> []"
  proof
    assume "observations evs = []"
    with saved show False by (simp add: EarlyStopping_def)
  qed
  from replay_best [OF this, of "patience (hargs h)" "Some path"] obtain i where
    i: "i < length (observations evs)"
    and best: "saved_model_blob
        (replay (EarlyStopping (patience (hargs h)) (Some path)) (observations evs)) =
        Some (snd (observations evs ! i))"
    and mn: "\<forall>j < length (observations evs). fst (observations evs ! i) \<le> fst (observations evs ! j)"
    and fs: "\<forall>j < i. fst (observations evs ! i) < fst (observations evs ! j)"
    by blast
  from saved best have c: "model h1 = snd (observations evs ! i)" by simp
  show ?thesis
    using tr le fp i mn fs m' t1 fin sv c
    by (intro exI [of _ evs] exI [of _ post] exI [of _ i] exI [of _ h1] exI [of _ last_epoch])
      simp
qed

text \<open>
  Claim C4 (a defect of the code).  Line 101 calls \<open>stopper.load_model(self.model)\<close> and
  drops what the call returns.  When \<open>_checkpoint\<close> is \<open>None\<close> the stopper returns the
  persisted model and leaves its argument as it is, so the final phase runs on the
  parameters of the last epoch.  In the run on the benchmark dataset the stopper is shown
  the loss 0 with the parameters 1 and then the loss 1 with the parameters 2.  With a
  checkpoint path the final parameters are 1, the validation score is 1 and the results
  of the parameters 1 are saved; without a path the final parameters are 2, the score
  is 0 and the results of the parameters 2 are saved.
\<close>

theorem no_path_keeps_last_parameters:
  "map_sum id (\<lambda>(res, h). (res, model h, observations (trace h), filter is_final (trace h)))
     (train toy_ops toy_nopath) =
     Inr (Summary [(''valid'', 0)] 1, 2, [(0, 1), (1, 2)],
          [TestInfo, SaveResults [0, 1, 0, 1, 0]]) \<and>
   map_sum id (\<lambda>(res, h). (res, model h, observations (trace h), filter is_final (trace h)))
     (train toy_ops toy_hgb) =
     Inr (Summary [(''valid'', 1)] 1, 1, [(0, 1), (1, 2)],
          [TestInfo, SaveResults [1, 0, 1, 0, 1]])"
  by code_simp



end
